theory Spec2Isabelle
  imports Complex_Main "HOL-Library.Word" "HOL-Library.Char_ord" "HOL-Library.List_Lexorder"
    "HOL-Library.Multiset"
begin

section \<open>Bytes and character classes\<close>

text \<open>
  The program works on \<^verbatim>\<open>std::string\<close>, a sequence of bytes; \<^typ>\<open>string\<close> is a list
  of 8-bit characters.  The classification functions of \<^verbatim>\<open><cctype>\<close> are taken in the
  "C" locale (the program never changes the locale), applied to \<^verbatim>\<open>unsigned char\<close>
  values as the source does.
\<close>

definition newline_char :: char where
  "newline_char = CHR 0x0A"

definition cr_char :: char where
  "cr_char = CHR 0x0D"

definition isdigit :: "char \<Rightarrow> bool" where
  "isdigit c = (48 \<le> (of_char c :: nat) \<and> (of_char c :: nat) \<le> 57)"

definition isalpha :: "char \<Rightarrow> bool" where
  "isalpha c = ((65 \<le> (of_char c :: nat) \<and> (of_char c :: nat) \<le> 90)
              \<or> (97 \<le> (of_char c :: nat) \<and> (of_char c :: nat) \<le> 122))"

definition isspace :: "char \<Rightarrow> bool" where
  "isspace c = ((9 \<le> (of_char c :: nat) \<and> (of_char c :: nat) \<le> 13) \<or> (of_char c :: nat) = 32)"

section \<open>Token analytics\<close>

text \<open>
  Floating point is a parameter of the model: \<open>rnd\<close> maps a rational to the
  \<^verbatim>\<open>double\<close> nearest to it (the result of a conversion or of one arithmetic
  operation), \<open>log2d\<close> is \<^verbatim>\<open>std::log2\<close> on doubles and \<open>fmt\<close> is the text that
  \<^verbatim>\<open>ostream << double\<close> prints.
\<close>

record fpenv =
  rnd :: "rat \<Rightarrow> rat"
  log2d :: "rat \<Rightarrow> rat"
  fmt :: "rat \<Rightarrow> string"

text \<open>\<^verbatim>\<open>double(a) / double(b)\<close> for two \<^verbatim>\<open>size_t\<close> values.\<close>

definition fdiv :: "fpenv \<Rightarrow> nat \<Rightarrow> nat \<Rightarrow> rat" where
  "fdiv fp a b = rnd fp (rnd fp (of_nat a) / rnd fp (of_nat b))"

text \<open>
  Exact arithmetic, for the examples: nothing is rounded, and no text is printed for a
  double.
\<close>

definition exact_fp :: fpenv where
  "exact_fp = \<lparr> rnd = (\<lambda>x. x), log2d = (\<lambda>x. 0), fmt = (\<lambda>x. []) \<rparr>"

text \<open>
  \<^verbatim>\<open>struct TokenStats\<close>.  The \<^verbatim>\<open>size_t\<close> counters are natural numbers: each is bounded
  by the length of the content, which is below \<open>2 ^ 64\<close>.  The \<^verbatim>\<open>unordered_map\<close> is an
  association list with unique keys, in order of first insertion.
\<close>

record TokenStats =
  chars :: nat
  lines :: nat
  tokens :: nat
  unique_tokens :: nat
  ttr :: rat
  avg_token_len :: rat
  char_entropy :: rat
  token_entropy :: rat
  digits :: nat
  letters :: nat
  whitespace :: nat
  punctuation :: nat
  freq :: "(string \<times> nat) list"

definition empty_stats :: TokenStats where
  "empty_stats = \<lparr> chars = 0, lines = 0, tokens = 0, unique_tokens = 0,
     ttr = 0, avg_token_len = 0, char_entropy = 0, token_entropy = 0,
     digits = 0, letters = 0, whitespace = 0, punctuation = 0, freq = [] \<rparr>"

text \<open>\<^verbatim>\<open>m[k]++\<close> on a map whose missing entries start at 0.\<close>

fun bump :: "'k \<Rightarrow> ('k \<times> nat) list \<Rightarrow> ('k \<times> nat) list" where
  "bump k [] = [(k, 1)]"
| "bump k ((k', n) # m) = (if k = k' then (k', n + 1) # m else (k', n) # bump k m)"

text \<open>
  \<open>scan_runs p cur s\<close> lists the maximal runs of bytes satisfying \<open>p\<close> in \<open>s\<close>, left to
  right; \<open>cur\<close> holds the run in progress.
\<close>

fun scan_runs :: "(char \<Rightarrow> bool) \<Rightarrow> string \<Rightarrow> string \<Rightarrow> string list" where
  "scan_runs p cur [] = (if cur = [] then [] else [cur])"
| "scan_runs p cur (c # cs) =
     (if p c then scan_runs p (cur @ [c]) cs
      else if cur = [] then scan_runs p [] cs
      else cur # scan_runs p [] cs)"

text \<open>
  \<^verbatim>\<open>tokenize_words\<close>: the successive matches of the regular expression
  \<^verbatim>\<open>[A-Za-z0-9_]+\<close>, that is the maximal runs of word characters.
\<close>

definition is_word_char :: "char \<Rightarrow> bool" where
  "is_word_char c = (isalpha c \<or> isdigit c \<or> c = CHR ''_'')"

definition tokenize_words :: "string \<Rightarrow> string list" where
  "tokenize_words s = scan_runs is_word_char [] s"

text \<open>
  \<^verbatim>\<open>shannon_entropy\<close> and \<^verbatim>\<open>shannon_entropy_tokens\<close> (the same body at two key types):
  the loop over the map's entries, every double operation rounded.
\<close>

fun entropy_loop :: "fpenv \<Rightarrow> nat \<Rightarrow> ('k \<times> nat) list \<Rightarrow> rat \<Rightarrow> rat" where
  "entropy_loop fp tot [] H = H"
| "entropy_loop fp tot ((k, n) # m) H =
     (if n \<noteq> 0
      then (let p = fdiv fp n tot
            in entropy_loop fp tot m (rnd fp (H - rnd fp (p * log2d fp p))))
      else entropy_loop fp tot m H)"

definition shannon_entropy :: "fpenv \<Rightarrow> ('k \<times> nat) list \<Rightarrow> nat \<Rightarrow> rat" where
  "shannon_entropy fp counts tot = (if tot = 0 then 0 else entropy_loop fp tot counts 0)"

text \<open>The body of the byte loop of \<^verbatim>\<open>compute_token_stats\<close>.\<close>

definition count_byte :: "char \<Rightarrow> TokenStats \<Rightarrow> TokenStats" where
  "count_byte c st =
     (let st1 = st\<lparr> chars := chars st + 1 \<rparr>;
          st2 = (if c = newline_char then st1\<lparr> lines := lines st1 + 1 \<rparr> else st1)
      in if isdigit c then st2\<lparr> digits := digits st2 + 1 \<rparr>
         else if isalpha c then st2\<lparr> letters := letters st2 + 1 \<rparr>
         else if isspace c then st2\<lparr> whitespace := whitespace st2 + 1 \<rparr>
         else st2\<lparr> punctuation := punctuation st2 + 1 \<rparr>)"

fun byte_loop :: "string \<Rightarrow> TokenStats \<times> (char \<times> nat) list \<Rightarrow> TokenStats \<times> (char \<times> nat) list" where
  "byte_loop [] acc = acc"
| "byte_loop (c # cs) (st, charfreq) = byte_loop cs (count_byte c st, bump c charfreq)"

fun token_loop :: "string list \<Rightarrow> nat \<times> (string \<times> nat) list \<Rightarrow> nat \<times> (string \<times> nat) list" where
  "token_loop [] acc = acc"
| "token_loop (t # ts) (totlen, fr) = token_loop ts (totlen + length t, bump t fr)"

definition compute_token_stats :: "fpenv \<Rightarrow> string \<Rightarrow> TokenStats" where
  "compute_token_stats fp content =
     (let (st, charfreq) = byte_loop content (empty_stats\<lparr> lines := 1 \<rparr>, []);
          toks = tokenize_words content;
          (totlen, fr) = token_loop toks (0, []);
          ntok = length toks;
          uniq = length fr
      in st\<lparr> tokens := ntok, freq := fr, unique_tokens := uniq,
             ttr := (if ntok \<noteq> 0 then fdiv fp uniq ntok else 0),
             avg_token_len := (if ntok \<noteq> 0 then fdiv fp totlen ntok else 0),
             char_entropy := shannon_entropy fp charfreq (chars st),
             token_entropy := shannon_entropy fp fr ntok \<rparr>)"

text \<open>The class a byte is counted in, by the priority of the \<^verbatim>\<open>if\<close> chain.\<close>

datatype byte_class = Digit | Letter | Whitespace | Punctuation

definition class_of :: "char \<Rightarrow> byte_class" where
  "class_of c = (if isdigit c then Digit else if isalpha c then Letter
                 else if isspace c then Whitespace else Punctuation)"


section \<open>Text helpers\<close>

text \<open>\<^verbatim>\<open>trim_copy\<close>: the string without its leading and trailing whitespace.\<close>

definition trim_copy :: "string \<Rightarrow> string" where
  "trim_copy s = rev (dropWhile isspace (rev (dropWhile isspace s)))"

text \<open>\<^verbatim>\<open>split_ws\<close>: the words that \<^verbatim>\<open>iss >> t\<close> extracts, the maximal runs of non-whitespace.\<close>

definition split_ws :: "string \<Rightarrow> string list" where
  "split_ws s = scan_runs (\<lambda>c. \<not> isspace c) [] s"

text \<open>Decimal and hexadecimal digits, and the text of a \<^verbatim>\<open>size_t\<close> printed to a stream.\<close>

definition digit_char :: "nat \<Rightarrow> char" where
  "digit_char d = (if d < 10 then char_of (48 + d) else char_of (87 + d))"

function show_nat :: "nat \<Rightarrow> string" where
  "show_nat n = (if n < 10 then [digit_char n] else show_nat (n div 10) @ [digit_char (n mod 10)])"
  by pat_completeness auto
termination
  by (relation "measure (\<lambda>n. n)") auto

declare show_nat.simps [simp del]

text \<open>\<^verbatim>\<open>json_escape\<close>; a control byte below 0x20 prints as \<^verbatim>\<open>\u00XX\<close> (\<^verbatim>\<open>%04x\<close>).\<close>

definition dquote :: char where
  "dquote = CHR 0x22"

definition backslash :: char where
  "backslash = CHR 0x5C"

definition json_escape_char :: "char \<Rightarrow> string" where
  "json_escape_char c =
     (if c = dquote then [backslash, dquote]
      else if c = backslash then [backslash, backslash]
      else if c = CHR 0x08 then [backslash, CHR ''b'']
      else if c = CHR 0x0C then [backslash, CHR ''f'']
      else if c = newline_char then [backslash, CHR ''n'']
      else if c = cr_char then [backslash, CHR ''r'']
      else if c = CHR 0x09 then [backslash, CHR ''t'']
      else if (of_char c :: nat) < 32
        then [backslash, CHR ''u'', CHR ''0'', CHR ''0'',
              digit_char ((of_char c :: nat) div 16), digit_char ((of_char c :: nat) mod 16)]
      else [c])"

definition json_escape :: "string \<Rightarrow> string" where
  "json_escape s = concat (map json_escape_char s)"

section \<open>N-grams\<close>

text \<open>
  \<^verbatim>\<open>counts[key]++\<close> on the ordered \<^verbatim>\<open>std::map\<close>: an association list kept in increasing
  key order (vectors of strings compare lexicographically, bytes as unsigned values).
\<close>

fun map_bump :: "'k::linorder \<Rightarrow> ('k \<times> nat) list \<Rightarrow> ('k \<times> nat) list" where
  "map_bump k [] = [(k, 1)]"
| "map_bump k ((k', n) # m) =
     (if k = k' then (k', n + 1) # m
      else if k < k' then (k, 1) # (k', n) # m
      else (k', n) # map_bump k m)"

text \<open>The inner loop of \<^verbatim>\<open>top_ngrams\<close>: the key \<^verbatim>\<open>toks[i], ..., toks[i + n - 1]\<close>.\<close>

definition ngram_key :: "string list \<Rightarrow> nat \<Rightarrow> nat \<Rightarrow> string list" where
  "ngram_key toks i n = map (\<lambda>j. toks ! (i + j)) [0..<n]"

text \<open>The outer loop: \<^verbatim>\<open>for (i = 0; i + n <= toks.size(); ++i)\<close>.\<close>

function ngram_loop ::
  "string list \<Rightarrow> nat \<Rightarrow> nat \<Rightarrow> (string list \<times> nat) list \<Rightarrow> (string list \<times> nat) list" where
  "ngram_loop toks n i counts =
     (if i + n \<le> length toks then ngram_loop toks n (i + 1) (map_bump (ngram_key toks i n) counts)
      else counts)"
  by pat_completeness auto
termination
  by (relation "measure (\<lambda>(toks, n, i, counts). length toks + 1 - (i + n))") auto

declare ngram_loop.simps [simp del]

text \<open>
  \<^verbatim>\<open>top_ngrams\<close>.  \<^verbatim>\<open>std::sort\<close> is not stable, so the order it gives to entries of
  equal count is not fixed by the language; the sorting function is a parameter \<open>srt\<close>.
  What the standard promises of it is \<open>sorts_by_count\<close>: the result is a rearrangement
  of the argument in which no entry stands before one of greater count.
\<close>

type_synonym ngram_counts = "(string list \<times> nat) list"

definition top_ngrams ::
  "(ngram_counts \<Rightarrow> ngram_counts) \<Rightarrow> string list \<Rightarrow> nat \<Rightarrow> nat \<Rightarrow> ngram_counts" where
  "top_ngrams srt toks n topk =
     (if n = 0 \<or> length toks < n then []
      else (let vec = srt (ngram_loop toks n 0 [])
            in if length vec > topk then take topk vec else vec))"

definition sorts_by_count :: "(ngram_counts \<Rightarrow> ngram_counts) \<Rightarrow> bool" where
  "sorts_by_count srt =
     (\<forall>xs. mset (srt xs) = mset xs \<and> sorted_wrt (\<lambda>a b. snd a \<ge> snd b) (srt xs))"

section \<open>Token composition\<close>

text \<open>\<^verbatim>\<open>SAFE_ALPHABET\<close>, and \<^verbatim>\<open>safe_pow_u64\<close> with its out-parameter returned.\<close>

definition SAFE_ALPHABET :: "char list" where
  "SAFE_ALPHABET = [CHR ''1'', CHR ''2'', CHR ''3'']"

lemma unat_succ:
  fixes i m :: "64 word"
  assumes "i < m"
  shows "unat (i + 1) = unat i + 1"
proof -
  from assms have l: "unat i < unat m" by (simp add: word_less_nat_alt)
  have "unat m < 2 ^ LENGTH(64)" by (rule unsigned_less)
  with l have "unat i + unat (1 :: 64 word) < 2 ^ LENGTH(64)" by simp
  then show ?thesis by (simp add: unat_add_lem [THEN iffD1])
qed

lemma word_succ_measure:
  fixes i m :: "64 word"
  assumes "i < m"
  shows "unat m - unat (i + 1) < unat m - unat i"
proof -
  from assms have "unat i < unat m" by (simp add: word_less_nat_alt)
  then show ?thesis using unat_succ[OF assms] by simp
qed

function pow_loop :: "64 word \<Rightarrow> 64 word \<Rightarrow> 64 word \<Rightarrow> 64 word \<Rightarrow> bool \<times> 64 word" where
  "pow_loop base expo i out =
     (if i < expo
      then (if out > (- 1) div base then (False, out) else pow_loop base expo (i + 1) (out * base))
      else (True, out))"
  by pat_completeness auto
termination
  by (relation "measure (\<lambda>(base, expo, i, out). unat expo - unat i)")
     (simp_all add: word_succ_measure)

declare pow_loop.simps [simp del]

definition safe_pow_u64 :: "64 word \<Rightarrow> 64 word \<Rightarrow> bool \<times> 64 word" where
  "safe_pow_u64 base expo = pow_loop base expo 0 1"

text \<open>
  The inner loop of \<^verbatim>\<open>compose_permutations\<close>, \<^verbatim>\<open>for (j = int(len) - 1; j >= 0; --j)\<close>:
  \<open>fill_line (j + 1) t line\<close> is the line after the iterations \<open>j, j - 1, ..., 0\<close>.
\<close>

fun fill_line :: "nat \<Rightarrow> 64 word \<Rightarrow> string \<Rightarrow> string" where
  "fill_line 0 t line = line"
| "fill_line (Suc j) t line =
     fill_line j (t div 3) (line[j := SAFE_ALPHABET ! unat (t mod 3)])"

text \<open>The outer loop; \<open>line\<close> lives across the iterations, as in the source.\<close>

function perm_loop :: "64 word \<Rightarrow> 64 word \<Rightarrow> 64 word \<Rightarrow> string \<Rightarrow> string \<Rightarrow> string" where
  "perm_loop len tot i line out =
     (if i < tot
      then (let line' = fill_line (unat len) i line
            in perm_loop len tot (i + 1) line' (out @ line' @ [newline_char]))
      else out)"
  by pat_completeness auto
termination
  by (relation "measure (\<lambda>(len, tot, i, line, out). unat tot - unat i)")
     (simp_all add: word_succ_measure)

declare perm_loop.simps [simp del]

definition compose_permutations :: "64 word \<Rightarrow> 64 word \<Rightarrow> string" where
  "compose_permutations len limit =
     (if len = 0 \<or> len > 10 \<or> limit = 0 then []
      else (let (ok, p) = safe_pow_u64 3 len;
                tot = min (if \<not> ok then limit else p) limit
            in perm_loop len tot 0 (replicate (unat len) (CHR ''1'')) []))"

text \<open>
  The text that \<^verbatim>\<open>Editor::tok_perm\<close> passes on: the limit is cut at \<^verbatim>\<open>MAXL = 5000\<close>
  before \<^verbatim>\<open>compose_permutations\<close> is called.
\<close>

definition tok_perm_text :: "64 word \<Rightarrow> 64 word \<Rightarrow> string" where
  "tok_perm_text len limit = compose_permutations len (if limit > 5000 then 5000 else limit)"

section \<open>Failures\<close>

text \<open>
  The ways a call can fail to return: the two exceptions the standard library throws in
  this program (\<^verbatim>\<open>std::invalid_argument\<close>, \<^verbatim>\<open>std::out_of_range\<close>), and an access the
  language leaves undefined, such as an index outside a vector.  The program has no
  \<^verbatim>\<open>try\<close> block, so an exception that is thrown leaves \<^verbatim>\<open>main\<close> and ends the process
  through \<^verbatim>\<open>std::terminate\<close>.
\<close>

datatype error = InvalidArgument | OutOfRange | UndefinedBehaviour

text \<open>
  \<^verbatim>\<open>std::stoul\<close> and \<^verbatim>\<open>std::stoull\<close> in base 10, with the largest value of the result type
  as a parameter: leading whitespace, an optional sign, then the longest run of digits;
  no digit is \<^verbatim>\<open>invalid_argument\<close>, a value above the maximum is \<^verbatim>\<open>out_of_range\<close>, and a
  minus sign negates in the unsigned type.  What follows the digits is ignored.
\<close>

definition digit_val :: "char \<Rightarrow> nat" where
  "digit_val c = (of_char c :: nat) - 48"

definition strtou :: "nat \<Rightarrow> string \<Rightarrow> error + nat" where
  "strtou maxv s =
     (let s1 = dropWhile isspace s;
          neg = (s1 \<noteq> [] \<and> hd s1 = CHR ''-'');
          s2 = (if s1 \<noteq> [] \<and> (hd s1 = CHR ''-'' \<or> hd s1 = CHR ''+'') then tl s1 else s1);
          ds = takeWhile isdigit s2;
          v = foldl (\<lambda>a c. 10 * a + digit_val c) 0 ds
      in if ds = [] then Inl InvalidArgument
         else if v > maxv then Inl OutOfRange
         else Inr (if neg then (maxv + 1 - v) mod (maxv + 1) else v))"

text \<open>
  The program is built for Windows, where \<^verbatim>\<open>unsigned long\<close> has 32 bits and
  \<^verbatim>\<open>unsigned long long\<close> has 64.
\<close>

definition stoul :: "string \<Rightarrow> error + nat" where
  "stoul s = strtou (2 ^ 32 - 1) s"

definition stoull :: "string \<Rightarrow> error + nat" where
  "stoull s = strtou (2 ^ 64 - 1) s"

section \<open>The editor\<close>

text \<open>
  The private state of \<^verbatim>\<open>class Editor\<close>.  The cursor and the offsets are \<^verbatim>\<open>int\<close>s; line
  lengths and line counts are taken to fit an \<^verbatim>\<open>int\<close>, so \<^verbatim>\<open>(int)line.size()\<close> is the
  length itself.
\<close>

record editor =
  buffer :: "string list"
  filename :: string
  status :: string
  mode :: string
  cmdbuf :: string
  dirty :: bool
  cur_y :: int
  cur_x :: int
  off_y :: int
  off_x :: int

text \<open>
  The file system the program sees: the contents of the files it can read, and the paths
  it can write.  A write that succeeds stores the content; a write that fails is taken
  to leave the file system as it was.
\<close>

record world =
  files :: "string \<Rightarrow> string option"
  writable :: "string \<Rightarrow> bool"

definition read_text_file :: "world \<Rightarrow> string \<Rightarrow> string option" where
  "read_text_file w path = files w path"

definition write_text_file :: "world \<Rightarrow> string \<Rightarrow> string \<Rightarrow> bool \<times> world" where
  "write_text_file w path content =
     (if writable w path then (True, w\<lparr> files := (files w)(path \<mapsto> content) \<rparr>)
      else (False, w))"

text \<open>
  What the program takes from its surroundings besides files: the floating-point unit,
  the sorting routine, the directory of temporary files, and \<^verbatim>\<open>_popen\<close> with the read
  loop of \<^verbatim>\<open>run_shell_capture\<close> (the captured output of a command line, \<open>None\<close> when the
  pipe cannot be opened, and the file system the child process leaves behind).
\<close>

record env =
  fpu :: fpenv
  std_sort :: "ngram_counts \<Rightarrow> ngram_counts"
  temp_path :: string
  popen :: "string \<Rightarrow> world \<Rightarrow> string option \<times> world"

subsection \<open>Editing\<close>

text \<open>\<^verbatim>\<open>std::clamp(v, lo, hi)\<close> for \<open>lo \<le> hi\<close>.\<close>

definition clamp :: "int \<Rightarrow> int \<Rightarrow> int \<Rightarrow> int" where
  "clamp v lo hi = (if v < lo then lo else if hi < v then hi else v)"

text \<open>\<^verbatim>\<open>buffer_[(std::size_t)i]\<close>: defined only for an index inside the vector.\<close>

definition line_at :: "string list \<Rightarrow> int \<Rightarrow> error + string" where
  "line_at buf i =
     (if 0 \<le> i \<and> i < int (length buf) then Inr (buf ! nat i) else Inl UndefinedBehaviour)"

text \<open>\<^verbatim>\<open>vector::insert\<close> and \<^verbatim>\<open>vector::erase\<close> at a position inside the vector.\<close>

definition insert_at :: "nat \<Rightarrow> 'a \<Rightarrow> 'a list \<Rightarrow> 'a list" where
  "insert_at i v xs = take i xs @ [v] @ drop i xs"

definition erase_at :: "nat \<Rightarrow> 'a list \<Rightarrow> 'a list" where
  "erase_at i xs = take i xs @ drop (i + 1) xs"

definition insert_char :: "char \<Rightarrow> editor \<Rightarrow> error + editor" where
  "insert_char c e =
     (let buf = (if buffer e = [] then [[]] else buffer e)
      in case line_at buf (cur_y e) of
           Inl er \<Rightarrow> Inl er
         | Inr line \<Rightarrow>
             (let x = nat (clamp (cur_x e) 0 (int (length line)))
              in Inr (e\<lparr> buffer := buf[nat (cur_y e) := take x line @ [c] @ drop x line],
                         cur_x := int x + 1, dirty := True \<rparr>)))"

text \<open>\<^verbatim>\<open>line.substr(cur_x_)\<close> throws when the position is beyond the end of the line.\<close>

definition newline :: "editor \<Rightarrow> error + editor" where
  "newline e =
     (case line_at (buffer e) (cur_y e) of
        Inl er \<Rightarrow> Inl er
      | Inr line \<Rightarrow>
          if \<not> (0 \<le> cur_x e \<and> cur_x e \<le> int (length line)) then Inl OutOfRange
          else (let y = nat (cur_y e); x = nat (cur_x e)
                in Inr (e\<lparr> buffer := insert_at (y + 1) (drop x line) ((buffer e)[y := take x line]),
                           cur_y := cur_y e + 1, cur_x := 0, dirty := True \<rparr>)))"

text \<open>
  \<^verbatim>\<open>line.erase(pos, 1)\<close> throws when \<open>pos\<close> is beyond the end and removes nothing when
  \<open>pos\<close> is the end.
\<close>

definition backspace :: "editor \<Rightarrow> error + editor" where
  "backspace e =
     (if cur_x e > 0 then
        (case line_at (buffer e) (cur_y e) of
           Inl er \<Rightarrow> Inl er
         | Inr line \<Rightarrow>
             if cur_x e - 1 > int (length line) then Inl OutOfRange
             else (let x = nat (cur_x e)
                   in Inr (e\<lparr> buffer := (buffer e)[nat (cur_y e) := take (x - 1) line @ drop x line],
                              cur_x := cur_x e - 1, dirty := True \<rparr>)))
      else if cur_y e > 0 then
        (case line_at (buffer e) (cur_y e - 1) of
           Inl er \<Rightarrow> Inl er
         | Inr prev \<Rightarrow>
             (case line_at (buffer e) (cur_y e) of
                Inl er \<Rightarrow> Inl er
              | Inr line \<Rightarrow>
                  (let y = nat (cur_y e)
                   in Inr (e\<lparr> buffer := erase_at y ((buffer e)[y - 1 := prev @ line]),
                              cur_y := cur_y e - 1, cur_x := int (length prev),
                              dirty := True \<rparr>))))
      else Inr e)"

definition del_key :: "editor \<Rightarrow> error + editor" where
  "del_key e =
     (case line_at (buffer e) (cur_y e) of
        Inl er \<Rightarrow> Inl er
      | Inr line \<Rightarrow>
          if cur_x e < int (length line) then
            (if cur_x e < 0 then Inl OutOfRange
             else (let x = nat (cur_x e)
                   in Inr (e\<lparr> buffer := (buffer e)[nat (cur_y e) := take x line @ drop (x + 1) line],
                              dirty := True \<rparr>)))
          else if cur_y e < int (length (buffer e)) - 1 then
            (let y = nat (cur_y e)
             in Inr (e\<lparr> buffer := erase_at (y + 1) ((buffer e)[y := line @ buffer e ! (y + 1)]),
                        dirty := True \<rparr>))
          else Inr e)"

text \<open>The four cursor movements, written twice in \<^verbatim>\<open>edit_loop\<close> (arrow keys and h/j/k/l).\<close>

definition move_up :: "editor \<Rightarrow> error + editor" where
  "move_up e =
     (let y = (if cur_y e > 0 then cur_y e - 1 else cur_y e)
      in case line_at (buffer e) y of
           Inl er \<Rightarrow> Inl er
         | Inr line \<Rightarrow> Inr (e\<lparr> cur_y := y, cur_x := min (cur_x e) (int (length line)) \<rparr>))"

definition move_down :: "editor \<Rightarrow> error + editor" where
  "move_down e =
     (let y = (if cur_y e < int (length (buffer e)) - 1 then cur_y e + 1 else cur_y e)
      in case line_at (buffer e) y of
           Inl er \<Rightarrow> Inl er
         | Inr line \<Rightarrow> Inr (e\<lparr> cur_y := y, cur_x := min (cur_x e) (int (length line)) \<rparr>))"

definition move_left :: "editor \<Rightarrow> error + editor" where
  "move_left e =
     (if cur_x e > 0 then Inr (e\<lparr> cur_x := cur_x e - 1 \<rparr>)
      else if cur_y e > 0 then
        (case line_at (buffer e) (cur_y e - 1) of
           Inl er \<Rightarrow> Inl er
         | Inr line \<Rightarrow> Inr (e\<lparr> cur_y := cur_y e - 1, cur_x := int (length line) \<rparr>))
      else Inr e)"

definition move_right :: "editor \<Rightarrow> error + editor" where
  "move_right e =
     (case line_at (buffer e) (cur_y e) of
        Inl er \<Rightarrow> Inl er
      | Inr line \<Rightarrow>
          if cur_x e < int (length line) then Inr (e\<lparr> cur_x := cur_x e + 1 \<rparr>)
          else if cur_y e < int (length (buffer e)) - 1
            then Inr (e\<lparr> cur_y := cur_y e + 1, cur_x := 0 \<rparr>)
          else Inr e)"

text \<open>
  \<^verbatim>\<open>edit_loop\<close> for the key \<open>ch\<close> that \<^verbatim>\<open>_getch\<close> returns; \<open>c2\<close> is the second code, read
  only after 224.  The two clamps end the function; on an empty buffer their bounds are
  out of order and the index that follows is outside the vector.
\<close>

definition edit_key :: "int \<Rightarrow> int \<Rightarrow> editor \<Rightarrow> error + editor" where
  "edit_key ch c2 e =
     (if ch = 27 then Inr (e\<lparr> mode := ''COMMAND'', status := [], cmdbuf := [] \<rparr>)
      else if ch = 13 \<or> ch = 10 then newline e
      else if ch = 8 then backspace e
      else if ch = 224 then
        (if c2 = 72 then move_up e
         else if c2 = 80 then move_down e
         else if c2 = 75 then move_left e
         else if c2 = 77 then move_right e
         else if c2 = 83 then del_key e
         else Inr e)
      else if ch = 127 then del_key e
      else if ch = 104 then move_left e
      else if ch = 106 then move_down e
      else if ch = 107 then move_up e
      else if ch = 108 then move_right e
      else if 32 \<le> ch \<and> ch \<le> 126 then insert_char (char_of ch) e
      else Inr e)"

definition edit_loop :: "int \<Rightarrow> int \<Rightarrow> editor \<Rightarrow> error + editor" where
  "edit_loop ch c2 e =
     (case edit_key ch c2 e of
        Inl er \<Rightarrow> Inl er
      | Inr e1 \<Rightarrow>
          if buffer e1 = [] then Inl UndefinedBehaviour
          else (let y = clamp (cur_y e1) 0 (int (length (buffer e1)) - 1);
                    x = clamp (cur_x e1) 0 (int (length (buffer e1 ! nat y)))
                in Inr (e1\<lparr> cur_y := y, cur_x := x \<rparr>)))"

subsection \<open>Opening and saving\<close>

text \<open>
  \<^verbatim>\<open>std::getline\<close> on the rest of the stream: at the end of the stream it fails; otherwise
  it gives the bytes before the next newline (or before the end) and the stream after
  that newline.
\<close>

definition getline :: "string \<Rightarrow> (string \<times> string) option" where
  "getline s =
     (if s = [] then None
      else Some (takeWhile (\<lambda>c. c \<noteq> newline_char) s,
                 drop 1 (dropWhile (\<lambda>c. c \<noteq> newline_char) s)))"

definition strip_cr :: "string \<Rightarrow> string" where
  "strip_cr line = (if line \<noteq> [] \<and> last line = cr_char then butlast line else line)"

text \<open>The \<^verbatim>\<open>while (std::getline(iss, line))\<close> loop of \<^verbatim>\<open>open_file\<close>.\<close>

function read_lines :: "string \<Rightarrow> string list \<Rightarrow> string list" where
  "read_lines s buf =
     (case getline s of
        None \<Rightarrow> buf
      | Some (line, rest) \<Rightarrow> read_lines rest (buf @ [strip_cr line]))"
  by pat_completeness auto
termination
proof (relation "measure (\<lambda>(s, buf). length s)")
  show "wf (measure (\<lambda>(s, buf). length s))" by simp
next
  fix s :: string and buf :: "string list" and x2 x y
  assume "getline s = Some x2" and "(x, y) = x2"
  then have "s \<noteq> []" and "y = drop 1 (dropWhile (\<lambda>c. c \<noteq> newline_char) s)"
    by (auto simp: getline_def split: if_splits)
  moreover have "length (dropWhile (\<lambda>c. c \<noteq> newline_char) s) \<le> length s"
    by (rule length_dropWhile_le)
  ultimately have "length y < length s"
    by (cases s) auto
  then show "((y, buf @ [strip_cr x]), (s, buf)) \<in> measure (\<lambda>(s, buf). length s)"
    by simp
qed

declare read_lines.simps [simp del]

definition open_file :: "string \<Rightarrow> editor \<times> world \<Rightarrow> editor \<times> world" where
  "open_file path ew =
     (let (e, w) = ew;
          e1 = (case read_text_file w path of
                  None \<Rightarrow> e\<lparr> buffer := [[]], status := ''New file: '' @ path \<rparr>
                | Some text \<Rightarrow>
                    (let buf = read_lines text [];
                         buf' = (if text \<noteq> [] \<and> last text = newline_char
                                    \<and> (buf = [] \<or> last buf \<noteq> [])
                                 then buf @ [[]] else buf)
                     in e\<lparr> buffer := buf', status := ''Opened '' @ path \<rparr>))
      in (e1\<lparr> filename := path, cur_y := 0, cur_x := 0, off_y := 0, off_x := 0,
              dirty := False \<rparr>, w))"

text \<open>The lines of the buffer with a newline between neighbours, as three functions write it.\<close>

fun join_lines :: "string list \<Rightarrow> string" where
  "join_lines [] = []"
| "join_lines [l] = l"
| "join_lines (l # ls) = l @ [newline_char] @ join_lines ls"

definition save_file :: "string \<Rightarrow> editor \<times> world \<Rightarrow> editor \<times> world" where
  "save_file path ew =
     (let (e, w) = ew;
          (ok, w') = write_text_file w path (join_lines (buffer e))
      in if ok then (e\<lparr> filename := path, status := ''Saved '' @ path, dirty := False \<rparr>, w')
         else (e\<lparr> status := ''Error: could not save '' @ path \<rparr>, w'))"

subsection \<open>Inserting a block of text\<close>

text \<open>The splitting loop of \<^verbatim>\<open>insert_text_block\<close>: \<open>s\<close> is the segment in progress.\<close>

fun split_block :: "string \<Rightarrow> string \<Rightarrow> string list \<Rightarrow> string list" where
  "split_block [] s ls = ls @ [s]"
| "split_block (c # cs) s ls =
     (if c = newline_char then split_block cs [] (ls @ [s])
      else if c \<noteq> cr_char then split_block cs (s @ [c]) ls
      else split_block cs s ls)"

text \<open>The loop that inserts \<^verbatim>\<open>lines[1], lines[2], ...\<close> at the positions after the cursor's line.\<close>

fun insert_lines :: "nat \<Rightarrow> string list \<Rightarrow> string list \<Rightarrow> string list" where
  "insert_lines pos [] buf = buf"
| "insert_lines pos (l # ls) buf = insert_lines (pos + 1) ls (insert_at pos l buf)"

definition insert_text_block :: "string \<Rightarrow> editor \<Rightarrow> error + editor" where
  "insert_text_block text e =
     (if text = [] then Inr e
      else (let ls = split_block text [] []
            in case line_at (buffer e) (cur_y e) of
                 Inl er \<Rightarrow> Inl er
               | Inr line \<Rightarrow>
                   if \<not> (0 \<le> cur_x e \<and> cur_x e \<le> int (length line)) then Inl OutOfRange
                   else (let y = nat (cur_y e); x = nat (cur_x e);
                             tail = drop x line;
                             buf1 = (buffer e)[y := take x line @ hd ls];
                             buf2 = insert_lines (y + 1) (tl ls) buf1;
                             y' = y + (length ls - 1);
                             x' = length (buf2 ! y')
                         in Inr (e\<lparr> buffer := buf2[y' := buf2 ! y' @ tail],
                                    cur_y := int y', cur_x := int x', dirty := True \<rparr>))))"

subsection \<open>Shell and compiler\<close>

definition run_shell_capture :: "env \<Rightarrow> string \<Rightarrow> world \<Rightarrow> string \<times> world" where
  "run_shell_capture ev cmd w =
     (case popen ev (''powershell -NoProfile -Command '' @ [dquote] @ cmd @ [dquote]) w of
        (None, w') \<Rightarrow> (''Error: shell failed.'', w')
      | (Some out, w') \<Rightarrow> (out, w'))"

text \<open>
  A status that is set only for the redraw in the middle of a command and replaced before
  the command returns is left out.
\<close>

definition command_shell :: "env \<Rightarrow> string \<Rightarrow> editor \<times> world \<Rightarrow> error + editor \<times> world" where
  "command_shell ev cmd ew =
     (let (e, w) = ew;
          (raw_out, w') = run_shell_capture ev cmd w;
          out = trim_copy raw_out
      in if out = [] then Inr (e\<lparr> status := ''Command produced no output.'' \<rparr>, w')
         else (case insert_text_block out e of
                 Inl er \<Rightarrow> Inl er
               | Inr e1 \<Rightarrow> Inr (e1\<lparr> status := ''Command finished.'' \<rparr>, w')))"

definition command_cpp :: "env \<Rightarrow> editor \<times> world \<Rightarrow> error + editor \<times> world" where
  "command_cpp ev ew =
     (let (e, w) = ew;
          src = temp_path ev @ ''vimified_main.cpp'';
          exe = temp_path ev @ ''vimified_run.exe'';
          (ok, w1) = write_text_file w src (concat (map (\<lambda>l. l @ [newline_char]) (buffer e)))
      in if \<not> ok then Inr (e\<lparr> status := ''Failed to write temp source.'' \<rparr>, w1)
         else (let ccmd = ''g++ -std=c++23 '' @ [dquote] @ src @ [dquote] @ '' -o ''
                            @ [dquote] @ exe @ [dquote];
                   (compile_out, w2) = run_shell_capture ev ccmd w1;
                   (run_out, w3) = run_shell_capture ev ([dquote] @ exe @ [dquote]) w2
               in if trim_copy run_out \<noteq> [] then
                    (case insert_text_block (trim_copy run_out) e of
                       Inl er \<Rightarrow> Inl er
                     | Inr e1 \<Rightarrow> Inr (e1\<lparr> status := ''Program ran (output inserted).'' \<rparr>, w3))
                  else if trim_copy compile_out \<noteq> [] then
                    (case insert_text_block (trim_copy compile_out) e of
                       Inl er \<Rightarrow> Inl er
                     | Inr e1 \<Rightarrow>
                         Inr (e1\<lparr> status := ''Compilation failed (diagnostics inserted).'' \<rparr>, w3))
                  else Inr (e\<lparr> status := ''Program produced no output.'' \<rparr>, w3)))"

subsection \<open>The tok commands\<close>

text \<open>
  The lines common to the two JSON texts, from \<open>lines\<close> to \<open>token_entropy_bits\<close>.  The
  entries of an \<^verbatim>\<open>unordered_map\<close> are visited in the order of the association list.
\<close>

definition json_key :: "string \<Rightarrow> string" where
  "json_key k = ''  '' @ [dquote] @ k @ [dquote] @ '': ''"

definition json_common :: "fpenv \<Rightarrow> TokenStats \<Rightarrow> string" where
  "json_common fp st =
     json_key ''lines'' @ show_nat (lines st) @ '','' @ [newline_char]
   @ json_key ''chars'' @ show_nat (chars st) @ '','' @ [newline_char]
   @ json_key ''tokens'' @ show_nat (tokens st) @ '','' @ [newline_char]
   @ json_key ''unique_tokens'' @ show_nat (unique_tokens st) @ '','' @ [newline_char]
   @ json_key ''type_token_ratio'' @ fmt fp (ttr st) @ '','' @ [newline_char]
   @ json_key ''avg_token_length'' @ fmt fp (avg_token_len st) @ '','' @ [newline_char]
   @ json_key ''char_entropy_bits'' @ fmt fp (char_entropy st) @ '','' @ [newline_char]
   @ json_key ''token_entropy_bits'' @ fmt fp (token_entropy st) @ '','' @ [newline_char]"

definition stats_json :: "fpenv \<Rightarrow> TokenStats \<Rightarrow> string" where
  "stats_json fp st =
     ''{'' @ [newline_char] @ json_common fp st
   @ json_key ''class_counts'' @ ''{ '' @ [dquote] @ ''digits'' @ [dquote] @ '': ''
   @ show_nat (digits st)
   @ '', '' @ [dquote] @ ''letters'' @ [dquote] @ '': '' @ show_nat (letters st)
   @ '', '' @ [dquote] @ ''whitespace'' @ [dquote] @ '': '' @ show_nat (whitespace st)
   @ '', '' @ [dquote] @ ''punctuation'' @ [dquote] @ '': '' @ show_nat (punctuation st)
   @ '' }'' @ [newline_char] @ ''}''"

definition insert_stats :: "env \<Rightarrow> string \<Rightarrow> editor \<times> world \<Rightarrow> error + editor \<times> world" where
  "insert_stats ev content ew =
     (case insert_text_block (stats_json (fpu ev) (compute_token_stats (fpu ev) content)) (fst ew) of
        Inl er \<Rightarrow> Inl er
      | Inr e1 \<Rightarrow> Inr (e1\<lparr> status := ''Token stats inserted.'' \<rparr>, snd ew))"

definition tok_stats :: "env \<Rightarrow> string option \<Rightarrow> editor \<times> world \<Rightarrow> error + editor \<times> world" where
  "tok_stats ev path_opt ew =
     (case path_opt of
        Some path \<Rightarrow>
          (case read_text_file (snd ew) path of
             None \<Rightarrow> Inr ((fst ew)\<lparr> status := ''tok: cannot open '' @ path \<rparr>, snd ew)
           | Some content \<Rightarrow> insert_stats ev content ew)
      | None \<Rightarrow> insert_stats ev (join_lines (buffer (fst ew))) ew)"

fun join_words :: "string list \<Rightarrow> string" where
  "join_words [] = []"
| "join_words [t] = t"
| "join_words (t # ts) = t @ '' '' @ join_words ts"

definition ngram_line :: "string list \<times> nat \<Rightarrow> string" where
  "ngram_line entry = ''  '' @ join_words (fst entry) @ ''  -> '' @ show_nat (snd entry)
     @ [newline_char]"

definition tok_ngram :: "env \<Rightarrow> nat \<Rightarrow> nat \<Rightarrow> editor \<times> world \<Rightarrow> error + editor \<times> world" where
  "tok_ngram ev N K ew =
     (let (e, w) = ew
      in if N = 0 then Inr (e\<lparr> status := ''tok: N must be >=1'' \<rparr>, w)
         else (let content = concat (map (\<lambda>l. l @ [newline_char]) (buffer e));
                   res = top_ngrams (std_sort ev) (tokenize_words content) N K;
                   text = ''Top '' @ show_nat K @ '' '' @ show_nat N @ ''-grams:'' @ [newline_char]
                            @ concat (map ngram_line res)
               in case insert_text_block text e of
                    Inl er \<Rightarrow> Inl er
                  | Inr e1 \<Rightarrow> Inr (e1\<lparr> status := ''N-grams inserted.'' \<rparr>, w)))"

fun freq_json :: "bool \<Rightarrow> (string \<times> nat) list \<Rightarrow> string" where
  "freq_json first [] = []"
| "freq_json first ((t, cnt) # m) =
     (if first then [] else '','') @ [newline_char] @ ''    '' @ [dquote] @ json_escape t
       @ [dquote] @ '': '' @ show_nat cnt @ freq_json False m"

definition export_json :: "fpenv \<Rightarrow> string \<Rightarrow> TokenStats \<Rightarrow> string" where
  "export_json fp outpath st =
     ''{'' @ [newline_char]
   @ json_key ''file'' @ [dquote] @ json_escape outpath @ [dquote] @ '','' @ [newline_char]
   @ json_common fp st
   @ json_key ''freq'' @ ''{'' @ freq_json True (freq st)
   @ (if freq st \<noteq> [] then [newline_char] @ ''  '' else [])
   @ ''}'' @ [newline_char] @ ''}'' @ [newline_char]"

definition tok_export :: "env \<Rightarrow> string \<Rightarrow> editor \<times> world \<Rightarrow> editor \<times> world" where
  "tok_export ev outpath ew =
     (let (e, w) = ew;
          st = compute_token_stats (fpu ev) (join_lines (buffer e));
          (ok, w') = write_text_file w outpath (export_json (fpu ev) outpath st)
      in if ok then (e\<lparr> status := ''Exported token stats -> '' @ outpath \<rparr>, w')
         else (e\<lparr> status := ''tok: export failed'' \<rparr>, w'))"

definition tok_perm :: "64 word \<Rightarrow> 64 word \<Rightarrow> editor \<Rightarrow> error + editor" where
  "tok_perm len limit e =
     (let out = tok_perm_text len limit
      in if out = [] then Inr (e\<lparr> status := ''tok: no permutations'' \<rparr>)
         else (case insert_text_block out e of
                 Inl er \<Rightarrow> Inl er
               | Inr e1 \<Rightarrow> Inr (e1\<lparr> status := ''Permutations inserted.'' \<rparr>)))"

subsection \<open>The command dispatcher\<close>

text \<open>
  \<^verbatim>\<open>execute_command\<close> returns the quit signal with the new state, or the failure that
  escapes it.  \<^verbatim>\<open>show_help\<close> draws and waits for a key; it changes nothing in the state.
  The two arguments of \<open>tok perm\<close> are converted left to right (the language does not fix
  the order, which only decides which failure is seen when both fail).
\<close>

definition quit_with :: "bool \<Rightarrow> editor \<times> world \<Rightarrow> error + bool \<times> editor \<times> world" where
  "quit_with q ew = Inr (q, fst ew, snd ew)"

definition stay :: "error + editor \<times> world \<Rightarrow> error + bool \<times> editor \<times> world" where
  "stay r = (case r of Inl er \<Rightarrow> Inl er | Inr ew \<Rightarrow> quit_with False ew)"

definition set_status :: "string \<Rightarrow> editor \<times> world \<Rightarrow> editor \<times> world" where
  "set_status msg ew = ((fst ew)\<lparr> status := msg \<rparr>, snd ew)"

definition tok_command :: "env \<Rightarrow> string list \<Rightarrow> editor \<times> world \<Rightarrow> error + editor \<times> world" where
  "tok_command ev parts ew =
     (if length parts = 1 then Inr (set_status ''tok: usage -> :tok stats|ngram|export|perm ...'' ew)
      else if parts ! 1 = ''stats'' then
        (if length parts \<ge> 3 then tok_stats ev (Some (parts ! 2)) ew else tok_stats ev None ew)
      else if parts ! 1 = ''ngram'' then
        (case (if length parts \<ge> 3 then stoul (parts ! 2) else Inr 2) of
           Inl er \<Rightarrow> Inl er
         | Inr N \<Rightarrow>
             (case (if length parts \<ge> 4 then stoul (parts ! 3) else Inr 20) of
                Inl er \<Rightarrow> Inl er
              | Inr K \<Rightarrow> tok_ngram ev N K ew))
      else if parts ! 1 = ''export'' then
        (if length parts < 3 then Inr (set_status ''tok: export <file.json>'' ew)
         else Inr (tok_export ev (parts ! 2) ew))
      else if parts ! 1 = ''perm'' then
        (if length parts < 4 then Inr (set_status ''tok: perm <len> <limit>'' ew)
         else (case stoull (parts ! 2) of
                 Inl er \<Rightarrow> Inl er
               | Inr len \<Rightarrow>
                   (case stoull (parts ! 3) of
                      Inl er \<Rightarrow> Inl er
                    | Inr limit \<Rightarrow>
                        (case tok_perm (of_nat len) (of_nat limit) (fst ew) of
                           Inl er \<Rightarrow> Inl er
                         | Inr e1 \<Rightarrow> Inr (e1, snd ew)))))
      else Inr (set_status ''tok: unknown subcommand'' ew))"

definition execute_command ::
  "env \<Rightarrow> string \<Rightarrow> editor \<times> world \<Rightarrow> error + bool \<times> editor \<times> world" where
  "execute_command ev raw ew =
     (let s = trim_copy raw
      in if s = [] then quit_with False (set_status [] ew)
         else (let parts = split_ws s;
                   cmd = (if parts = [] then [] else parts ! 0)
               in if cmd = ''q'' then
                    (if dirty (fst ew)
                     then quit_with False (set_status ''Unsaved changes! Use :q! to force quit.'' ew)
                     else quit_with True ew)
                  else if cmd = ''q!'' then quit_with True ew
                  else if cmd = ''w'' then
                    quit_with False
                      (save_file (if length parts \<ge> 2 then parts ! 1 else filename (fst ew)) ew)
                  else if cmd = ''o'' then
                    (if length parts < 2 then quit_with False (set_status ''Usage: :o <filename>'' ew)
                     else if dirty (fst ew)
                       then quit_with False (set_status ''Unsaved changes! Save with :w first.'' ew)
                     else quit_with False (open_file (parts ! 1) ew))
                  else if cmd = ''help'' then quit_with False ew
                  else if cmd = ''cpp'' then stay (command_cpp ev ew)
                  else if cmd \<noteq> [] \<and> hd cmd = CHR ''!'' then
                    (let rest = drop 1 s;
                         rest' = (if rest \<noteq> [] \<and> hd rest = CHR '' '' then drop 1 rest else rest)
                     in stay (command_shell ev rest' ew))
                  else if cmd = ''tok'' then stay (tok_command ev parts ew)
                  else quit_with False (set_status (''Unknown command: '' @ cmd) ew)))"

text \<open>\<^verbatim>\<open>command_loop\<close> for the key \<open>ch\<close>; the redraw is not part of the state.\<close>

definition command_loop ::
  "env \<Rightarrow> int \<Rightarrow> editor \<times> world \<Rightarrow> error + bool \<times> editor \<times> world" where
  "command_loop ev ch ew =
     (let e = (fst ew)\<lparr> status := '':'' @ cmdbuf (fst ew) \<rparr>; w = snd ew
      in if ch = 27 then Inr (False, e\<lparr> mode := ''EDIT'', status := [], cmdbuf := [] \<rparr>, w)
         else if ch = 8 then
           Inr (False, (if cmdbuf e \<noteq> [] then e\<lparr> cmdbuf := butlast (cmdbuf e) \<rparr> else e), w)
         else if ch = 13 \<or> ch = 10 then
           (case execute_command ev (cmdbuf e) (e, w) of
              Inl er \<Rightarrow> Inl er
            | Inr (quit, e1, w1) \<Rightarrow> Inr (quit, e1\<lparr> cmdbuf := [], mode := ''EDIT'' \<rparr>, w1))
         else if ch = 58 \<and> cmdbuf e = [] then Inr (False, e, w)
         else if 32 \<le> ch \<and> ch \<le> 126 then Inr (False, e\<lparr> cmdbuf := cmdbuf e @ [char_of ch] \<rparr>, w)
         else Inr (False, e, w))"

text \<open>The state the constructor builds when no file is given or the file cannot be read.\<close>

definition new_editor :: "string \<Rightarrow> editor" where
  "new_editor name = \<lparr> buffer = [[]], filename = name, status = ''ready'', mode = ''EDIT'',
     cmdbuf = [], dirty = False, cur_y = 0, cur_x = 0, off_y = 0, off_x = 0 \<rparr>"

section \<open>Verification: byte statistics\<close>

lemma byte_loop_fst: "fst (byte_loop cs (st, cf)) = fold count_byte cs st"
  by (induction cs arbitrary: st cf) auto

lemma fold_count_byte_chars: "chars (fold count_byte cs st) = chars st + length cs"
  by (induction cs arbitrary: st) (auto simp: count_byte_def Let_def)

lemma fold_count_byte_lines:
  "lines (fold count_byte cs st) = lines st + count_list cs newline_char"
  by (induction cs arbitrary: st) (auto simp: count_byte_def Let_def)

lemma fold_count_byte_digits:
  "digits (fold count_byte cs st) = digits st + length (filter (\<lambda>c. class_of c = Digit) cs)"
  by (induction cs arbitrary: st) (auto simp: count_byte_def Let_def class_of_def)

lemma fold_count_byte_letters:
  "letters (fold count_byte cs st) = letters st + length (filter (\<lambda>c. class_of c = Letter) cs)"
  by (induction cs arbitrary: st) (auto simp: count_byte_def Let_def class_of_def)

lemma fold_count_byte_whitespace:
  "whitespace (fold count_byte cs st)
     = whitespace st + length (filter (\<lambda>c. class_of c = Whitespace) cs)"
  by (induction cs arbitrary: st) (auto simp: count_byte_def Let_def class_of_def)

lemma fold_count_byte_punctuation:
  "punctuation (fold count_byte cs st)
     = punctuation st + length (filter (\<lambda>c. class_of c = Punctuation) cs)"
  by (induction cs arbitrary: st) (auto simp: count_byte_def Let_def class_of_def)

lemma class_partition:
  "length (filter (\<lambda>c. class_of c = Digit) cs) + length (filter (\<lambda>c. class_of c = Letter) cs)
   + length (filter (\<lambda>c. class_of c = Whitespace) cs)
   + length (filter (\<lambda>c. class_of c = Punctuation) cs) = length cs"
proof (induction cs)
  case Nil
  then show ?case by simp
next
  case (Cons c cs)
  then show ?case by (cases "class_of c") simp_all
qed

lemma cts_fields:
  "chars (compute_token_stats fp content)
     = chars (fold count_byte content (empty_stats\<lparr> lines := 1 \<rparr>))"
  "lines (compute_token_stats fp content)
     = lines (fold count_byte content (empty_stats\<lparr> lines := 1 \<rparr>))"
  "digits (compute_token_stats fp content)
     = digits (fold count_byte content (empty_stats\<lparr> lines := 1 \<rparr>))"
  "letters (compute_token_stats fp content)
     = letters (fold count_byte content (empty_stats\<lparr> lines := 1 \<rparr>))"
  "whitespace (compute_token_stats fp content)
     = whitespace (fold count_byte content (empty_stats\<lparr> lines := 1 \<rparr>))"
  "punctuation (compute_token_stats fp content)
     = punctuation (fold count_byte content (empty_stats\<lparr> lines := 1 \<rparr>))"
  using byte_loop_fst[of content "empty_stats\<lparr> lines := 1 \<rparr>" "[]"]
  by (auto simp: compute_token_stats_def Let_def split: prod.splits)

text \<open>
  Claim C8.  For every content, \<open>compute_token_stats\<close> reports \<open>lines\<close> as one more than
  the number of newline bytes and \<open>chars\<close> as the number of bytes; each of the four class
  counters is the number of bytes whose class (decided in the order digit, letter,
  whitespace, punctuation, so that every byte has exactly one class) is that one, and the
  four counters add up to \<open>chars\<close>.
\<close>

theorem compute_token_stats_counts:
  "lines (compute_token_stats fp content) = 1 + count_list content newline_char
   \<and> chars (compute_token_stats fp content) = length content
   \<and> digits (compute_token_stats fp content)
       = length (filter (\<lambda>c. class_of c = Digit) content)
   \<and> letters (compute_token_stats fp content)
       = length (filter (\<lambda>c. class_of c = Letter) content)
   \<and> whitespace (compute_token_stats fp content)
       = length (filter (\<lambda>c. class_of c = Whitespace) content)
   \<and> punctuation (compute_token_stats fp content)
       = length (filter (\<lambda>c. class_of c = Punctuation) content)
   \<and> digits (compute_token_stats fp content) + letters (compute_token_stats fp content)
      + whitespace (compute_token_stats fp content) + punctuation (compute_token_stats fp content)
      = chars (compute_token_stats fp content)"
  by (simp add: cts_fields fold_count_byte_chars fold_count_byte_lines fold_count_byte_digits
      fold_count_byte_letters fold_count_byte_whitespace fold_count_byte_punctuation
      class_partition empty_stats_def)

theorem compute_token_stats_counts_witness:
  "lines (compute_token_stats exact_fp [CHR ''a'', CHR ''1'', newline_char, CHR ''.'']) = 2
   \<and> chars (compute_token_stats exact_fp [CHR ''a'', CHR ''1'', newline_char, CHR ''.'']) = 4
   \<and> digits (compute_token_stats exact_fp [CHR ''a'', CHR ''1'', newline_char, CHR ''.'']) = 1
   \<and> letters (compute_token_stats exact_fp [CHR ''a'', CHR ''1'', newline_char, CHR ''.'']) = 1
   \<and> whitespace (compute_token_stats exact_fp [CHR ''a'', CHR ''1'', newline_char, CHR ''.'']) = 1
   \<and> punctuation (compute_token_stats exact_fp [CHR ''a'', CHR ''1'', newline_char, CHR ''.'']) = 1"
  using compute_token_stats_counts[of exact_fp "[CHR ''a'', CHR ''1'', newline_char, CHR ''.'']"]
  by (simp add: class_of_def isdigit_def isalpha_def isspace_def newline_char_def)

section \<open>Verification: type-token ratio\<close>

definition rounding_ok :: "fpenv \<Rightarrow> bool" where
  "rounding_ok fp = ((\<forall>x y. x \<le> y \<longrightarrow> rnd fp x \<le> rnd fp y) \<and> rnd fp 0 = 0 \<and> rnd fp 1 = 1)"

lemma bump_keys: "fst ` set (bump k m) = insert k (fst ` set m)"
proof (induction m)
  case Nil
  then show ?case by simp
next
  case (Cons a m)
  obtain k' n where a: "a = (k', n)" by (cases a)
  show ?case
  proof (cases "k = k'")
    case True
    then show ?thesis by (simp add: a)
  next
    case False
    then show ?thesis using Cons.IH by (simp add: a insert_commute)
  qed
qed

lemma bump_distinct: "distinct (map fst m) \<Longrightarrow> distinct (map fst (bump k m))"
proof (induction m)
  case Nil
  then show ?case by simp
next
  case (Cons a m)
  obtain k' n where a: "a = (k', n)" by (cases a)
  from Cons have d: "distinct (map fst (bump k m))" and ni: "k' \<notin> fst ` set m" by (auto simp: a)
  show ?case
  proof (cases "k = k'")
    case True
    then show ?thesis using Cons.prems by (simp add: a)
  next
    case False
    then have "k' \<notin> fst ` set (bump k m)" using ni by (simp add: bump_keys)
    then show ?thesis using d False by (simp add: a)
  qed
qed

lemma token_loop_keys:
  "fst ` set (snd (token_loop ts (n, fr))) = set ts \<union> fst ` set fr"
  by (induction ts arbitrary: n fr) (simp_all add: bump_keys)

lemma token_loop_distinct:
  "distinct (map fst fr) \<Longrightarrow> distinct (map fst (snd (token_loop ts (n, fr))))"
  by (induction ts arbitrary: n fr) (simp_all add: bump_distinct)

lemma token_loop_length:
  "length (snd (token_loop ts (0, []))) = card (set ts)"
proof -
  have "card (set ts) = card (set (map fst (snd (token_loop ts (0, [])))))"
    using token_loop_keys[of ts 0 "[]"] by simp
  also have "\<dots> = length (map fst (snd (token_loop ts (0, []))))"
    by (rule distinct_card) (simp add: token_loop_distinct)
  finally show ?thesis by simp
qed

lemma cts_tokens:
  "tokens (compute_token_stats fp content) = length (tokenize_words content)"
  "unique_tokens (compute_token_stats fp content) = card (set (tokenize_words content))"
  "ttr (compute_token_stats fp content) =
     (if length (tokenize_words content) \<noteq> 0
      then fdiv fp (card (set (tokenize_words content))) (length (tokenize_words content)) else 0)"
  using token_loop_length[of "tokenize_words content"]
  by (auto simp: compute_token_stats_def Let_def split: prod.splits)

lemma fdiv_unit_interval:
  assumes "rounding_ok fp" "a \<le> b" "0 < b"
  shows "0 \<le> fdiv fp a b \<and> fdiv fp a b \<le> 1"
proof -
  from assms(1) have m: "\<And>x y. x \<le> y \<Longrightarrow> rnd fp x \<le> rnd fp y" and z: "rnd fp 0 = 0" and o: "rnd fp 1 = 1"
    by (auto simp: rounding_ok_def)
  have a0: "0 \<le> rnd fp (of_nat a)" using m[of 0 "of_nat a"] z by simp
  have b1: "1 \<le> rnd fp (of_nat b)" using m[of 1 "of_nat b"] o assms(3) by simp
  have ab: "rnd fp (of_nat a) \<le> rnd fp (of_nat b)" using m[of "of_nat a" "of_nat b"] assms(2) by simp
  have q0: "0 \<le> rnd fp (of_nat a) / rnd fp (of_nat b)" using a0 b1 by simp
  have q1: "rnd fp (of_nat a) / rnd fp (of_nat b) \<le> 1" using ab b1 by simp
  show ?thesis using m[OF q0] m[OF q1] z o by (simp add: fdiv_def)
qed

lemma fdiv_same:
  assumes "rounding_ok fp" "0 < b"
  shows "fdiv fp b b = 1"
proof -
  from assms(1) have m: "\<And>x y. x \<le> y \<Longrightarrow> rnd fp x \<le> rnd fp y" and o: "rnd fp 1 = 1"
    by (auto simp: rounding_ok_def)
  have b1: "1 \<le> rnd fp (of_nat b)" using m[of 1 "of_nat b"] o assms(2) by simp
  then have "rnd fp (of_nat b) / rnd fp (of_nat b) = 1" by simp
  then show ?thesis using o by (simp add: fdiv_def)
qed

text \<open>
  Claim C9.  Under any rounding that is monotone and exact at 0 and 1 (as rounding to the
  nearest double is), the type-token ratio computed by \<open>compute_token_stats\<close> lies
  between 0 and 1; it is 0 when the content has no token, 1 when the content has tokens
  and they are pairwise distinct, and the double quotient \<open>1 / tokens\<close> when the content
  has tokens and they are all the same.
\<close>

theorem type_token_ratio_range:
  assumes "rounding_ok fp"
  shows "0 \<le> ttr (compute_token_stats fp content) \<and> ttr (compute_token_stats fp content) \<le> 1
    \<and> (tokenize_words content = [] \<longrightarrow> ttr (compute_token_stats fp content) = 0)
    \<and> (tokenize_words content \<noteq> [] \<and> distinct (tokenize_words content)
         \<longrightarrow> ttr (compute_token_stats fp content) = 1)
    \<and> (tokenize_words content \<noteq> [] \<and> (\<forall>t \<in> set (tokenize_words content). t = hd (tokenize_words content))
         \<longrightarrow> ttr (compute_token_stats fp content) = rnd fp (1 / rnd fp (of_nat (tokens (compute_token_stats fp content)))))"
proof -
  let ?ts = "tokenize_words content"
  have le: "card (set ?ts) \<le> length ?ts" by (rule card_length)
  have range: "0 \<le> ttr (compute_token_stats fp content) \<and> ttr (compute_token_stats fp content) \<le> 1"
    using fdiv_unit_interval[OF assms le] by (simp add: cts_tokens)
  have empty: "?ts = [] \<longrightarrow> ttr (compute_token_stats fp content) = 0"
    by (simp add: cts_tokens)
  have dist: "?ts \<noteq> [] \<and> distinct ?ts \<longrightarrow> ttr (compute_token_stats fp content) = 1"
    using fdiv_same[OF assms, of "length ?ts"] by (auto simp: cts_tokens distinct_card)
  have same: "?ts \<noteq> [] \<and> (\<forall>t \<in> set ?ts. t = hd ?ts)
         \<longrightarrow> ttr (compute_token_stats fp content) = rnd fp (1 / rnd fp (of_nat (tokens (compute_token_stats fp content))))"
  proof (intro impI, elim conjE)
    assume ne: "?ts \<noteq> []" and al: "\<forall>t \<in> set ?ts. t = hd ?ts"
    then have "set ?ts = {hd ?ts}" by (cases ?ts) auto
    then have "card (set ?ts) = 1" by simp
    moreover have "rnd fp 1 = 1" using assms by (simp add: rounding_ok_def)
    ultimately show "ttr (compute_token_stats fp content) = rnd fp (1 / rnd fp (of_nat (tokens (compute_token_stats fp content))))"
      using ne by (simp add: cts_tokens fdiv_def)
  qed
  from range empty dist same show ?thesis by blast
qed

lemma tokens_ab_ab: "tokenize_words ''ab ab'' = [''ab'', ''ab'']"
  by (simp add: tokenize_words_def is_word_char_def isalpha_def isdigit_def)

theorem type_token_ratio_range_witness:
  "rounding_ok exact_fp \<and> tokenize_words ''ab ab'' = [''ab'', ''ab'']
   \<and> ttr (compute_token_stats exact_fp ''ab ab'') = 1 / 2"
proof -
  have r: "rounding_ok exact_fp" by (simp add: rounding_ok_def exact_fp_def)
  have t: "tokens (compute_token_stats exact_fp ''ab ab'') = 2" by (simp add: cts_tokens tokens_ab_ab)
  show ?thesis using type_token_ratio_range[OF r, of "''ab ab''"] r t
    by (simp add: tokens_ab_ab exact_fp_def)
qed

section \<open>Verification: permutation composer\<close>

text \<open>
  The digits the inner loop writes, most significant first, and the number a string over
  the alphabet denotes in base 3 when \<open>1\<close>, \<open>2\<close>, \<open>3\<close> stand for the digits 0, 1, 2.
\<close>

fun digs :: "nat \<Rightarrow> 64 word \<Rightarrow> string" where
  "digs 0 t = []"
| "digs (Suc j) t = digs j (t div 3) @ [SAFE_ALPHABET ! unat (t mod 3)]"

definition base3_value :: "string \<Rightarrow> nat" where
  "base3_value s = foldl (\<lambda>a c. 3 * a + ((of_char c :: nat) - 49)) 0 s"

lemma fill_line_digs: "n \<le> length line \<Longrightarrow> fill_line n t line = digs n t @ drop n line"
proof (induction n arbitrary: t line)
  case 0
  then show ?case by simp
next
  case (Suc j)
  then have "j < length line" by simp
  then have "drop j (line[j := x]) = x # drop (Suc j) line" for x
    by (simp add: drop_update_cancel Cons_nth_drop_Suc[symmetric] upd_conv_take_nth_drop)
  then show ?case using Suc by simp
qed

lemma length_digs: "length (digs n t) = n"
  by (induction n arbitrary: t) auto

lemma unat_mod3: "unat ((t :: 64 word) mod 3) < 3"
  by (simp add: unat_mod)
 
lemma alphabet_nth: "k < 3 \<Longrightarrow> SAFE_ALPHABET ! k \<in> {CHR ''1'', CHR ''2'', CHR ''3''} \<and> (of_char (SAFE_ALPHABET ! k) :: nat) - 49 = k"
  by (auto simp: SAFE_ALPHABET_def less_Suc_eq numeral_3_eq_3 nth_Cons')

lemma set_digs: "set (digs n t) \<subseteq> {CHR ''1'', CHR ''2'', CHR ''3''}"
proof (induction n arbitrary: t)
  case 0
  then show ?case by simp
next
  case (Suc n)
  show ?case using Suc[of "t div 3"] alphabet_nth[OF unat_mod3, of t] by auto
qed

lemma base3_value_snoc: "base3_value (s @ [c]) = 3 * base3_value s + ((of_char c :: nat) - 49)"
  by (simp add: base3_value_def)

lemma base3_value_digs: "base3_value (digs n t) = unat t mod 3 ^ n"
proof (induction n arbitrary: t)
  case 0
  then show ?case by (simp add: base3_value_def)
next
  case (Suc n)
  have "base3_value (digs (Suc n) t) = 3 * (unat (t div 3) mod 3 ^ n) + unat (t mod 3)"
    using alphabet_nth[OF unat_mod3, of t] by (simp add: base3_value_snoc Suc)
  also have "\<dots> = 3 * (unat t div 3 mod 3 ^ n) + unat t mod 3"
    by (simp add: unat_div unat_mod)
  also have "\<dots> = unat t mod 3 ^ Suc n"
    by (simp add: mod_mult2_eq)
  finally show ?case .
qed

lemma perm_loop_eq:
  "length line = unat len \<Longrightarrow>
   perm_loop len tot i line out =
     out @ concat (map (\<lambda>k. digs (unat len) (of_nat k) @ [newline_char]) [unat i ..< unat tot])"
proof (induction len tot i line out rule: perm_loop.induct)
  case (1 len tot i line out)
  show ?case
  proof (cases "i < tot")
    case True
    let ?l = "fill_line (unat len) i line"
    have l: "?l = digs (unat len) i" using 1(2) by (simp add: fill_line_digs)
    then have ll: "length ?l = unat len" by (simp add: length_digs)
    have lt: "unat i < unat tot" using True by (simp add: word_less_nat_alt)
    have up: "[unat i ..< unat tot] = unat i # [unat (i + 1) ..< unat tot]"
      using lt unat_succ[OF True] by (simp add: upt_conv_Cons)
    have "perm_loop len tot i line out = perm_loop len tot (i + 1) ?l (out @ ?l @ [newline_char])"
      using True by (subst perm_loop.simps) (simp add: Let_def)
    also have "\<dots> = (out @ ?l @ [newline_char]) @ concat (map (\<lambda>k. digs (unat len) (of_nat k) @ [newline_char]) [unat (i + 1) ..< unat tot])"
      using 1(1)[OF True refl ll] .
    finally show ?thesis by (simp add: up l)
  next
    case False
    then have "\<not> unat i < unat tot" by (simp add: word_less_nat_alt)
    then show ?thesis using False by (subst perm_loop.simps) simp
  qed
qed

lemma pow3_small:
  assumes "k < 10"
  shows "\<not> (3 :: 64 word) ^ k > (- 1) div 3"
proof -
  from assms have "k = 0 \<or> k = 1 \<or> k = 2 \<or> k = 3 \<or> k = 4 \<or> k = 5 \<or> k = 6 \<or> k = 7 \<or> k = 8 \<or> k = 9"
    by arith
  then show ?thesis by (elim disjE) simp_all
qed

lemma pow_loop_3:
  "unat expo \<le> 10 \<Longrightarrow> out = 3 ^ unat i \<Longrightarrow> i \<le> expo \<Longrightarrow> pow_loop 3 expo i out = (True, 3 ^ unat expo)"
proof (induction "3 :: 64 word" expo i out rule: pow_loop.induct)
  case (1 expo i out)
  show ?case
  proof (cases "i < expo")
    case True
    then have "unat i < unat expo" by (simp add: word_less_nat_alt)
    with 1(2) have k: "unat i < 10" by simp
    have no: "\<not> out > (- 1) div 3" using pow3_small[OF k] 1(3) by simp
    have o': "out * 3 = 3 ^ unat (i + 1)" using 1(3) unat_succ[OF True] by simp
    have "pow_loop 3 expo i out = pow_loop 3 expo (i + 1) (out * 3)"
      using True no by (subst pow_loop.simps) simp
    also have "\<dots> = (True, 3 ^ unat expo)"
      using 1(1)[OF True no 1(2) o' inc_le[OF True]] .
    finally show ?thesis .
  next
    case False
    with 1(4) have "i = expo" by simp
    then show ?thesis using 1(3) by (subst pow_loop.simps) simp
  qed
qed

lemma safe_pow_3:
  fixes len :: "64 word"
  assumes "len \<le> 10"
  shows "safe_pow_u64 3 len = (True, 3 ^ unat len)"
proof -
  have "unat len \<le> 10" using assms by (simp add: word_le_nat_alt)
  then show ?thesis unfolding safe_pow_u64_def by (rule pow_loop_3) simp_all
qed


lemma unat_pow3:
  assumes "n \<le> 10"
  shows "unat ((3 :: 64 word) ^ n) = 3 ^ n"
proof -
  have "(3::nat) ^ n \<le> 3 ^ 10" using assms by (intro power_increasing) simp_all
  then have b: "(3::nat) ^ n < 2 ^ LENGTH(64)" by simp
  have "unat (of_nat (3 ^ n) :: 64 word) = 3 ^ n"
    using b by (rule of_nat_inverse [OF refl])
  then show ?thesis by simp
qed

lemma compose_permutations_eq:
  fixes len limit :: "64 word"
  assumes "len \<noteq> 0" "len \<le> 10" "limit \<noteq> 0"
  shows "compose_permutations len limit
    = concat (map (\<lambda>k. digs (unat len) (of_nat k) @ [newline_char])
        [0 ..< min (3 ^ unat len) (unat limit)])"
proof -
  have n: "unat len \<le> 10" using assms(2) by (simp add: word_le_nat_alt)
  have "\<not> 10 < len" using assms(2) by simp
  then have "compose_permutations len limit
     = perm_loop len (min (3 ^ unat len) limit) 0 (replicate (unat len) (CHR ''1'')) []"
    using assms by (simp add: compose_permutations_def safe_pow_3)
  also have "\<dots> = concat (map (\<lambda>k. digs (unat len) (of_nat k) @ [newline_char])
        [0 ..< unat (min ((3 :: 64 word) ^ unat len) limit)])"
    by (simp add: perm_loop_eq)
  also have "unat (min ((3 :: 64 word) ^ unat len) limit) = min (3 ^ unat len) (unat limit)"
    using unat_pow3[OF n] by (simp add: min_def word_le_nat_alt)
  finally show ?thesis .
qed

lemma tok_perm_text_eq:
  fixes len limit :: "64 word"
  assumes "len \<noteq> 0" "len \<le> 10" "limit \<noteq> 0"
  shows "tok_perm_text len limit
    = concat (map (\<lambda>k. digs (unat len) (of_nat k) @ [newline_char])
        [0 ..< min (unat limit) (min (3 ^ unat len) 5000)])"
proof (cases "limit > 5000")
  case True
  then have "unat limit > 5000" by (simp add: word_less_nat_alt)
  then show ?thesis using True assms by (simp add: tok_perm_text_def compose_permutations_eq min_def)
next
  case False
  then have "\<not> unat limit > 5000" by (simp add: word_less_nat_alt)
  then show ?thesis using False assms by (simp add: tok_perm_text_def compose_permutations_eq min_def)
qed

lemma tok_perm_text_empty:
  "len = 0 \<or> 10 < len \<or> limit = 0 \<Longrightarrow> tok_perm_text len limit = []"
  by (auto simp: tok_perm_text_def compose_permutations_def)

lemma digs_2: "digs 2 t = [SAFE_ALPHABET ! unat (t div 3 mod 3), SAFE_ALPHABET ! unat (t mod 3)]"
  by (simp add: numeral_2_eq_2)

lemma tok_perm_2_100:
  "tok_perm_text 2 100 = concat (map (\<lambda>s. s @ [newline_char])
      [''11'', ''12'', ''13'', ''21'', ''22'', ''23'', ''31'', ''32'', ''33''])"
proof -
  have "tok_perm_text 2 100 = concat (map (\<lambda>k. digs 2 (of_nat k) @ [newline_char]) [0 ..< 9])"
    using tok_perm_text_eq[of 2 100] by simp
  also have "[0 ..< 9] = [0, 1, 2, 3, 4, 5, 6, 7, 8 :: nat]"
    by (simp add: upt_rec)
  finally show ?thesis
    by (simp add: digs_2 SAFE_ALPHABET_def)
qed

text \<open>
  Claim C4.  For a length between 1 and 10 and a limit of at least 1, the text handed to
  the buffer by \<open>tok perm\<close> is a sequence of newline-terminated strings: there are
  \<open>min limit (min (3 ^ len) 5000)\<close> of them, each has \<open>len\<close> symbols out of \<open>1\<close>, \<open>2\<close>,
  \<open>3\<close>, and the string at position \<open>i\<close> denotes \<open>i\<close> in base 3, most significant symbol
  first.  For length 0, a length above 10 or limit 0 the text is empty.  Length 2 with
  limit 100 gives the nine strings 11, 12, 13, 21, 22, 23, 31, 32, 33 in this order.
\<close>

theorem tok_perm_enumerates:
  fixes len limit :: "64 word"
  shows "(1 \<le> len \<and> len \<le> 10 \<and> 1 \<le> limit \<longrightarrow>
           (\<exists>strs. tok_perm_text len limit = concat (map (\<lambda>s. s @ [newline_char]) strs)
              \<and> length strs = min (unat limit) (min (3 ^ unat len) 5000)
              \<and> (\<forall>i < length strs. length (strs ! i) = unat len
                     \<and> set (strs ! i) \<subseteq> {CHR ''1'', CHR ''2'', CHR ''3''}
                     \<and> base3_value (strs ! i) = i)))
       \<and> (len = 0 \<or> 10 < len \<or> limit = 0 \<longrightarrow> tok_perm_text len limit = [])
       \<and> tok_perm_text 2 100 = concat (map (\<lambda>s. s @ [newline_char])
            [''11'', ''12'', ''13'', ''21'', ''22'', ''23'', ''31'', ''32'', ''33''])"
proof (intro conjI impI)
  assume h: "1 \<le> len \<and> len \<le> 10 \<and> 1 \<le> limit"
  then have len0: "len \<noteq> 0" and len10: "len \<le> 10" and lim0: "limit \<noteq> 0" by auto
  let ?N = "min (unat limit) (min (3 ^ unat len) 5000)"
  let ?strs = "map (\<lambda>k. digs (unat len) (of_nat k)) [0 ..< ?N]"
  have out: "tok_perm_text len limit = concat (map (\<lambda>s. s @ [newline_char]) ?strs)"
    by (simp add: tok_perm_text_eq[OF len0 len10 lim0] comp_def)
  have each: "length (?strs ! i) = unat len
      \<and> set (?strs ! i) \<subseteq> {CHR ''1'', CHR ''2'', CHR ''3''}
      \<and> base3_value (?strs ! i) = i" if "i < length ?strs" for i
  proof -
    from that have iN: "i < ?N" by simp
    then have i3: "i < 3 ^ unat len" and i5: "i < 5000" by simp_all
    have "unat (of_nat i :: 64 word) = i" using i5 by (simp add: unat_of_nat take_bit_nat_eq_self)
    then have "base3_value (digs (unat len) (of_nat i)) = i"
      using i3 by (simp add: base3_value_digs)
    then show ?thesis using iN set_digs[of "unat len" "of_nat i"] by (simp add: length_digs)
  qed
  show "\<exists>strs. tok_perm_text len limit = concat (map (\<lambda>s. s @ [newline_char]) strs)
              \<and> length strs = ?N
              \<and> (\<forall>i < length strs. length (strs ! i) = unat len
                     \<and> set (strs ! i) \<subseteq> {CHR ''1'', CHR ''2'', CHR ''3''}
                     \<and> base3_value (strs ! i) = i)"
    using out each by (intro exI[of _ ?strs]) simp
next
  assume "len = 0 \<or> 10 < len \<or> limit = 0"
  then show "tok_perm_text len limit = []" by (rule tok_perm_text_empty)
next
  show "tok_perm_text 2 100 = concat (map (\<lambda>s. s @ [newline_char])
            [''11'', ''12'', ''13'', ''21'', ''22'', ''23'', ''31'', ''32'', ''33''])"
    by (rule tok_perm_2_100)
qed

theorem tok_perm_enumerates_witness:
  "(1 :: 64 word) \<le> 1 \<and> (1 :: 64 word) \<le> 10 \<and> (1 :: 64 word) \<le> 2
   \<and> (\<exists>strs. tok_perm_text 1 2 = concat (map (\<lambda>s. s @ [newline_char]) strs)
         \<and> length strs = 2 \<and> base3_value (strs ! 1) = 1)
   \<and> tok_perm_text 0 7 = []"
proof -
  have h: "(1 :: 64 word) \<le> 1 \<and> (1 :: 64 word) \<le> 10 \<and> (1 :: 64 word) \<le> 2" by simp
  from tok_perm_enumerates[of 1 2] h
  obtain strs where "tok_perm_text 1 2 = concat (map (\<lambda>s. s @ [newline_char]) strs)"
    "length strs = 2" "\<forall>i < length strs. base3_value (strs ! i) = i"
    by auto
  moreover have "tok_perm_text 0 7 = []" using tok_perm_enumerates[of 0 7] by simp
  ultimately show ?thesis using h by auto
qed

section \<open>Verification: the dispatcher on a malformed number\<close>

lemma stoul_abc: "stoul ''abc'' = Inl InvalidArgument"
  by (simp add: stoul_def strtou_def isspace_def isdigit_def Let_def)

text \<open>
  Claim C1 (the code does not meet it).  On the command line \<open>tok ngram abc\<close>, in every
  state, \<open>execute_command\<close> does not return: \<open>std::stoul\<close> throws
  \<open>std::invalid_argument\<close>, nothing catches it, and the process ends.
\<close>

theorem execute_command_tok_ngram_throws:
  "execute_command ev ''tok ngram abc'' ew = Inl InvalidArgument"
proof -
  have t: "trim_copy ''tok ngram abc'' = ''tok ngram abc''"
    by (simp add: trim_copy_def isspace_def)
  have p: "split_ws ''tok ngram abc'' = [''tok'', ''ngram'', ''abc'']"
    by (simp add: split_ws_def isspace_def)
  show ?thesis
    by (simp add: execute_command_def t p Let_def tok_command_def stoul_abc stay_def)
qed

section \<open>Verification: the cursor invariant\<close>

text \<open>
  The invariant of the Document and the Cursor: the buffer has a line, the row is the
  index of a line, and the column is between 0 and the length of that line.
\<close>

definition cursor_ok :: "editor \<Rightarrow> bool" where
  "cursor_ok e = (buffer e \<noteq> [] \<and> 0 \<le> cur_y e \<and> cur_y e < int (length (buffer e))
     \<and> 0 \<le> cur_x e \<and> cur_x e \<le> int (length (buffer e ! nat (cur_y e))))"

text \<open>An insert or backspace operation, and a sequence of them run from a state.\<close>

datatype edit_op = Insert char | Backspace

fun apply_op :: "edit_op \<Rightarrow> editor \<Rightarrow> error + editor" where
  "apply_op (Insert c) e = insert_char c e"
| "apply_op Backspace e = backspace e"

fun run_ops :: "edit_op list \<Rightarrow> editor \<Rightarrow> error + editor" where
  "run_ops [] e = Inr e"
| "run_ops (op # ops) e = (case apply_op op e of Inl er \<Rightarrow> Inl er | Inr e' \<Rightarrow> run_ops ops e')"

lemma insert_char_ok:
  assumes "cursor_ok e"
  shows "\<exists>e'. insert_char c e = Inr e' \<and> cursor_ok e' \<and> dirty e'"
  using assms
  by (auto simp: cursor_ok_def insert_char_def line_at_def clamp_def Let_def)

lemma backspace_ok:
  assumes "cursor_ok e"
  shows "\<exists>e'. backspace e = Inr e' \<and> cursor_ok e'"
proof -
  from assms have b: "buffer e \<noteq> []" and y: "0 \<le> cur_y e" "cur_y e < int (length (buffer e))"
    and x: "0 \<le> cur_x e" "cur_x e \<le> int (length (buffer e ! nat (cur_y e)))"
    by (auto simp: cursor_ok_def)
  show ?thesis
  proof (cases "cur_x e > 0")
    case True
    then show ?thesis using b y x
      by (auto simp: backspace_def line_at_def Let_def cursor_ok_def)
  next
    case False
    note nx = this
    show ?thesis
    proof (cases "cur_y e > 0")
      case True
      let ?y = "nat (cur_y e)"
      have yy: "0 < ?y" "?y < length (buffer e)" using True y by auto
      have len: "length (erase_at ?y ((buffer e)[?y - 1 := buffer e ! (?y - 1) @ buffer e ! ?y])) = length (buffer e) - 1"
        using yy by (simp add: erase_at_def)
      have nth: "erase_at ?y ((buffer e)[?y - 1 := buffer e ! (?y - 1) @ buffer e ! ?y]) ! (?y - 1) = buffer e ! (?y - 1) @ buffer e ! ?y"
        using yy by (simp add: erase_at_def nth_append)
      have ne: "erase_at ?y ((buffer e)[?y - 1 := buffer e ! (?y - 1) @ buffer e ! ?y]) \<noteq> []"
      proof -
        have "0 < length (erase_at ?y ((buffer e)[?y - 1 := buffer e ! (?y - 1) @ buffer e ! ?y]))"
          using yy len by simp
        then show ?thesis by auto
      qed
      have n1: "nat (cur_y e - 1) = ?y - 1" using True by simp
      show ?thesis using nx True y yy len nth ne
        by (simp add: backspace_def line_at_def Let_def cursor_ok_def n1 nat_diff_distrib)
    next
      case False
      then show ?thesis using nx assms by (simp add: backspace_def)
    qed
  qed
qed


lemma run_ops_ok:
  "cursor_ok e \<Longrightarrow> \<exists>e'. run_ops ops e = Inr e' \<and> cursor_ok e'"
proof (induction ops arbitrary: e)
  case Nil
  then show ?case by simp
next
  case (Cons op ops)
  have "\<exists>e1. apply_op op e = Inr e1 \<and> cursor_ok e1"
    using insert_char_ok[OF Cons.prems] backspace_ok[OF Cons.prems] by (cases op) auto
  then obtain e1 where "apply_op op e = Inr e1" "cursor_ok e1" by blast
  then show ?case using Cons.IH[of e1] by simp
qed

text \<open>
  Every key that \<open>edit_loop\<close> handles keeps the invariant, so the operations keep it
  also as they arrive from the keyboard.  A key is a pair: the code read, and the second
  code that is read after 224.
\<close>

fun run_keys :: "(int \<times> int) list \<Rightarrow> editor \<Rightarrow> error + editor" where
  "run_keys [] e = Inr e"
| "run_keys (k # ks) e =
     (case edit_loop (fst k) (snd k) e of Inl er \<Rightarrow> Inl er | Inr e' \<Rightarrow> run_keys ks e')"

lemma newline_ok:
  assumes "cursor_ok e"
  shows "\<exists>e'. newline e = Inr e' \<and> cursor_ok e'"
  using assms
  by (auto simp: cursor_ok_def newline_def line_at_def Let_def insert_at_def nth_append min_def)

lemma del_key_ok:
  assumes "cursor_ok e"
  shows "\<exists>e'. del_key e = Inr e' \<and> cursor_ok e'"
  using assms
  by (auto simp: cursor_ok_def del_key_def line_at_def Let_def erase_at_def nth_append min_def)

lemma move_ok:
  assumes "cursor_ok e"
  shows "\<exists>e'. move_up e = Inr e' \<and> cursor_ok e'"
    "\<exists>e'. move_down e = Inr e' \<and> cursor_ok e'"
    "\<exists>e'. move_left e = Inr e' \<and> cursor_ok e'"
    "\<exists>e'. move_right e = Inr e' \<and> cursor_ok e'"
  using assms
  by (auto simp: cursor_ok_def move_up_def move_down_def move_left_def move_right_def
      line_at_def Let_def nat_diff_distrib nat_add_distrib)

lemma edit_key_ok:
  assumes "cursor_ok e"
  shows "\<exists>e'. edit_key ch c2 e = Inr e' \<and> cursor_ok e'"
proof -
  have esc: "cursor_ok (e\<lparr> mode := m, status := s, cmdbuf := c \<rparr>)" for m s c
    using assms by (simp add: cursor_ok_def)
  show ?thesis
    unfolding edit_key_def
    using esc assms newline_ok[OF assms] backspace_ok[OF assms] del_key_ok[OF assms]
      move_ok[OF assms] insert_char_ok[OF assms, of "char_of ch"]
    by (simp; blast)
qed

lemma edit_loop_ok:
  assumes "cursor_ok e"
  shows "\<exists>e'. edit_loop ch c2 e = Inr e' \<and> cursor_ok e'"
proof -
  from edit_key_ok[OF assms] obtain e1 where k: "edit_key ch c2 e = Inr e1" and ok: "cursor_ok e1"
    by blast
  then show ?thesis
    by (auto simp: edit_loop_def cursor_ok_def clamp_def Let_def)
qed

lemma run_keys_ok:
  "cursor_ok e \<Longrightarrow> \<exists>e'. run_keys ks e = Inr e' \<and> cursor_ok e'"
proof (induction ks arbitrary: e)
  case Nil
  then show ?case by simp
next
  case (Cons k ks)
  from edit_loop_ok[OF Cons.prems, of "fst k" "snd k"]
  obtain e1 where "edit_loop (fst k) (snd k) e = Inr e1" "cursor_ok e1" by blast
  then show ?case using Cons.IH[of e1] by simp
qed

text \<open>
  Claim C5.  From a state that satisfies the invariant, every sequence of \<open>insert_char\<close>
  and \<open>backspace\<close> operations runs without failure, and after each operation of the
  sequence the buffer has at least one line, the row is at least 0 and below the number
  of lines, and the column is at least 0 and at most the length of the row's line.  The
  same holds for every sequence of keys given to \<open>edit_loop\<close>, among them Backspace and
  the printable characters that \<open>edit_loop\<close> inserts.
\<close>

theorem insert_backspace_keep_cursor:
  assumes "cursor_ok e"
  shows "(\<forall>k \<le> length ops. \<exists>e'. run_ops (take k ops) e = Inr e'
           \<and> buffer e' \<noteq> []
           \<and> 0 \<le> cur_y e' \<and> cur_y e' < int (length (buffer e'))
           \<and> 0 \<le> cur_x e' \<and> cur_x e' \<le> int (length (buffer e' ! nat (cur_y e'))))
    \<and> (\<forall>k \<le> length keys. \<exists>e'. run_keys (take k keys) e = Inr e'
           \<and> buffer e' \<noteq> []
           \<and> 0 \<le> cur_y e' \<and> cur_y e' < int (length (buffer e'))
           \<and> 0 \<le> cur_x e' \<and> cur_x e' \<le> int (length (buffer e' ! nat (cur_y e'))))"
  using run_ops_ok[OF assms] run_keys_ok[OF assms] by (simp add: cursor_ok_def)

lemma cursor_ok_new: "cursor_ok (new_editor name)"
  by (simp add: cursor_ok_def new_editor_def)

theorem insert_backspace_keep_cursor_witness:
  "cursor_ok (new_editor ''a.txt'')
   \<and> (\<exists>e'. run_ops [Insert CHR ''x'', Backspace, Backspace] (new_editor ''a.txt'') = Inr e'
          \<and> buffer e' = [[]] \<and> cur_y e' = 0 \<and> cur_x e' = 0)
   \<and> (\<exists>e'. run_keys [(120, 0), (8, 0), (8, 0)] (new_editor ''a.txt'') = Inr e'
          \<and> buffer e' = [[]] \<and> cur_y e' = 0 \<and> cur_x e' = 0)"
proof -
  have ok: "cursor_ok (new_editor ''a.txt'')" by (rule cursor_ok_new)
  note t = insert_backspace_keep_cursor[OF ok, of "[Insert CHR ''x'', Backspace, Backspace]"
      "[(120, 0), (8, 0), (8, 0)]"]
  have "\<exists>e'. run_ops (take 3 [Insert CHR ''x'', Backspace, Backspace]) (new_editor ''a.txt'') = Inr e'
           \<and> buffer e' \<noteq> []"
    using t[THEN conjunct1, THEN spec, of 3] by auto
  moreover have "run_ops [Insert CHR ''x'', Backspace, Backspace] (new_editor ''a.txt'')
     = Inr ((new_editor ''a.txt'')\<lparr> dirty := True \<rparr>)"
    by (simp add: new_editor_def insert_char_def backspace_def line_at_def clamp_def Let_def)
  moreover have "\<exists>e'. run_keys (take 3 [(120, 0), (8, 0), (8, 0)]) (new_editor ''a.txt'') = Inr e'
           \<and> buffer e' \<noteq> []"
    using t[THEN conjunct2, THEN spec, of 3] by auto
  moreover have "run_keys [(120, 0), (8, 0), (8, 0)] (new_editor ''a.txt'')
     = Inr ((new_editor ''a.txt'')\<lparr> dirty := True \<rparr>)"
    by (simp add: new_editor_def edit_loop_def edit_key_def insert_char_def backspace_def
        line_at_def clamp_def Let_def)
  ultimately show ?thesis using ok by (simp add: new_editor_def)
qed

section \<open>Verification: the dirty flag and saving\<close>

lemma parts_nonempty: "split_ws s = c # args \<Longrightarrow> s \<noteq> []"
  by (auto simp: split_ws_def)

lemma execute_w:
  assumes "split_ws (trim_copy raw) = ''w'' # args"
  shows "execute_command ev raw (e, w)
     = quit_with False (save_file (if args \<noteq> [] then hd args else filename e) (e, w))"
proof -
  have ne: "trim_copy raw \<noteq> []" using assms by (rule parts_nonempty)
  show ?thesis using ne assms by (cases args) (simp_all add: execute_command_def Let_def)
qed

lemma execute_q_dirty:
  assumes "split_ws (trim_copy raw) = ''q'' # args" "dirty e"
  shows "execute_command ev raw (e, w)
     = Inr (False, e\<lparr> status := ''Unsaved changes! Use :q! to force quit.'' \<rparr>, w)"
proof -
  have ne: "trim_copy raw \<noteq> []" using assms(1) by (rule parts_nonempty)
  show ?thesis using ne assms by (simp add: execute_command_def Let_def quit_with_def set_status_def)
qed

lemma execute_o:
  assumes "split_ws (trim_copy raw) = ''o'' # path # rest" "\<not> dirty e"
  shows "execute_command ev raw (e, w) = quit_with False (open_file path (e, w))"
proof -
  have ne: "trim_copy raw \<noteq> []" using assms(1) by (rule parts_nonempty)
  show ?thesis using ne assms by (simp add: execute_command_def Let_def)
qed

lemma save_file_ok:
  assumes "writable w path"
  shows "save_file path (e, w)
     = (e\<lparr> filename := path, status := ''Saved '' @ path, dirty := False \<rparr>,
        w\<lparr> files := (files w)(path \<mapsto> join_lines (buffer e)) \<rparr>)"
  using assms by (simp add: save_file_def write_text_file_def)

lemma save_file_fail:
  assumes "\<not> writable w path"
  shows "save_file path (e, w) = (e\<lparr> status := ''Error: could not save '' @ path \<rparr>, w)"
  using assms by (simp add: save_file_def write_text_file_def)

lemma insert_char_dirty: "insert_char c e = Inr e' \<Longrightarrow> dirty e'"
  by (auto simp: insert_char_def Let_def split: sum.splits)

text \<open>
  Claim C6.  Whenever \<open>insert_char\<close> returns, the dirty flag is set, and it does return
  from every state with the cursor invariant.  A command line whose first word is \<open>w\<close>
  and whose target (the second word, or the current filename when there is none) can be
  written leaves the dirty flag clear and does not quit.  A command line whose first word
  is \<open>q\<close>, run while the dirty flag is set, does not quit, changes no file, and leaves
  the lines of the buffer and the dirty flag as they were.
\<close>

theorem dirty_flag_scenario:
  "(\<forall>e'. insert_char c e = Inr e' \<longrightarrow> dirty e')
   \<and> (cursor_ok e \<longrightarrow> (\<exists>e'. insert_char c e = Inr e' \<and> dirty e'))
   \<and> (split_ws (trim_copy raw_w) = ''w'' # args
        \<and> writable w (if args \<noteq> [] then hd args else filename e)
       \<longrightarrow> (\<exists>e' w'. execute_command ev raw_w (e, w) = Inr (False, e', w') \<and> \<not> dirty e'))
   \<and> (split_ws (trim_copy raw_q) = ''q'' # args_q \<and> dirty e
       \<longrightarrow> (\<exists>e'. execute_command ev raw_q (e, w) = Inr (False, e', w)
               \<and> buffer e' = buffer e \<and> dirty e'))"
proof (intro conjI impI allI)
  fix e' assume "insert_char c e = Inr e'"
  then show "dirty e'" by (rule insert_char_dirty)
next
  assume "cursor_ok e"
  then show "\<exists>e'. insert_char c e = Inr e' \<and> dirty e'" using insert_char_ok by blast
next
  assume h: "split_ws (trim_copy raw_w) = ''w'' # args
        \<and> writable w (if args \<noteq> [] then hd args else filename e)"
  then show "\<exists>e' w'. execute_command ev raw_w (e, w) = Inr (False, e', w') \<and> \<not> dirty e'"
    by (simp add: execute_w save_file_ok quit_with_def)
next
  assume h: "split_ws (trim_copy raw_q) = ''q'' # args_q \<and> dirty e"
  then show "\<exists>e'. execute_command ev raw_q (e, w) = Inr (False, e', w)
               \<and> buffer e' = buffer e \<and> dirty e'"
    by (simp add: execute_q_dirty)
qed

text \<open>
  Concrete surroundings for the examples: exact arithmetic, a stable sort by decreasing
  count, no shell, and a file system that is empty and either writable or read-only.
\<close>

definition count_sort :: "ngram_counts \<Rightarrow> ngram_counts" where
  "count_sort = sort_key (\<lambda>p. - int (snd p))"

lemma count_sort_ok: "sorts_by_count count_sort"
proof -
  have "sorted_wrt (\<lambda>a b. snd a \<ge> snd b) (count_sort xs)" for xs
    using sorted_sort_key[of "\<lambda>p. - int (snd p)" xs] by (simp add: count_sort_def sorted_map)
  then show ?thesis by (simp add: sorts_by_count_def count_sort_def)
qed

definition plain_env :: env where
  "plain_env = \<lparr> fpu = exact_fp, std_sort = count_sort,
     temp_path = ''C:/Temp/'', popen = (\<lambda>cmd w. (None, w)) \<rparr>"

definition empty_world :: world where
  "empty_world = \<lparr> files = (\<lambda>p. None), writable = (\<lambda>p. True) \<rparr>"

lemma parts_w: "split_ws (trim_copy ''w'') = [''w'']"
  by (simp add: split_ws_def trim_copy_def isspace_def)

lemma parts_q: "split_ws (trim_copy ''q'') = [''q'']"
  by (simp add: split_ws_def trim_copy_def isspace_def)

theorem dirty_flag_scenario_witness:
  "cursor_ok (new_editor ''a.txt'')
   \<and> (\<exists>e1. insert_char CHR ''x'' (new_editor ''a.txt'') = Inr e1 \<and> dirty e1
        \<and> split_ws (trim_copy ''q'') = [''q'']
        \<and> (\<exists>e2. execute_command plain_env ''q'' (e1, empty_world) = Inr (False, e2, empty_world)
               \<and> buffer e2 = buffer e1)
        \<and> split_ws (trim_copy ''w'') = [''w'']
        \<and> writable empty_world (filename e1)
        \<and> (\<exists>e3 w3. execute_command plain_env ''w'' (e1, empty_world) = Inr (False, e3, w3)
               \<and> \<not> dirty e3))"
proof -
  have ok: "cursor_ok (new_editor ''a.txt'')" by (rule cursor_ok_new)
  from dirty_flag_scenario[of "CHR ''x''" "new_editor ''a.txt''"] ok
  obtain e1 where e1: "insert_char CHR ''x'' (new_editor ''a.txt'') = Inr e1" "dirty e1"
    by blast
  have wr: "writable empty_world (filename e1)" by (simp add: empty_world_def)
  have q: "\<exists>e2. execute_command plain_env ''q'' (e1, empty_world) = Inr (False, e2, empty_world)
               \<and> buffer e2 = buffer e1"
    using dirty_flag_scenario[of "CHR ''x''" e1 "''w''" "[]" empty_world plain_env "''q''" "[]"]
      e1(2) parts_q by auto
  have s: "\<exists>e3 w3. execute_command plain_env ''w'' (e1, empty_world) = Inr (False, e3, w3)
               \<and> \<not> dirty e3"
    using dirty_flag_scenario[of "CHR ''x''" e1 "''w''" "[]" empty_world plain_env "''q''" "[]"]
      wr parts_w by auto
  show ?thesis using ok e1 q s wr parts_q parts_w by blast
qed

text \<open>
  Claim C10.  A command line \<open>w <path>\<close> whose write succeeds does not quit, stores the
  joined buffer at \<open>path\<close> and makes \<open>path\<close> the current filename; from then on, in any
  state that still has this filename, a command line that is just \<open>w\<close> writes the buffer
  to \<open>path\<close> and to no other file.  When the write fails the current filename is what it
  was, and no file changes.
\<close>

theorem save_as_changes_filename:
  "(split_ws (trim_copy raw) = ''w'' # path # rest \<and> writable w path
      \<longrightarrow> (\<exists>e' w'. execute_command ev raw (e, w) = Inr (False, e', w')
             \<and> filename e' = path
             \<and> files w' path = Some (join_lines (buffer e))
             \<and> (\<forall>raw2 e2 w2. split_ws (trim_copy raw2) = [''w''] \<and> filename e2 = filename e'
                    \<and> writable w2 path
                  \<longrightarrow> (\<exists>e3 w3. execute_command ev raw2 (e2, w2) = Inr (False, e3, w3)
                         \<and> filename e3 = path
                         \<and> files w3 path = Some (join_lines (buffer e2))
                         \<and> (\<forall>p. p \<noteq> path \<longrightarrow> files w3 p = files w2 p)))))
   \<and> (split_ws (trim_copy raw) = ''w'' # path # rest \<and> \<not> writable w path
      \<longrightarrow> (\<exists>e'. execute_command ev raw (e, w) = Inr (False, e', w)
             \<and> filename e' = filename e))"
proof (intro conjI impI)
  assume h: "split_ws (trim_copy raw) = ''w'' # path # rest \<and> writable w path"
  then have first: "execute_command ev raw (e, w)
      = Inr (False, e\<lparr> filename := path, status := ''Saved '' @ path, dirty := False \<rparr>,
             w\<lparr> files := (files w)(path \<mapsto> join_lines (buffer e)) \<rparr>)"
    using execute_w[of raw "path # rest" ev e w] by (simp add: save_file_ok quit_with_def)
  have later: "\<exists>e3 w3. execute_command ev raw2 (e2, w2) = Inr (False, e3, w3)
                         \<and> filename e3 = path
                         \<and> files w3 path = Some (join_lines (buffer e2))
                         \<and> (\<forall>p. p \<noteq> path \<longrightarrow> files w3 p = files w2 p)"
    if "split_ws (trim_copy raw2) = [''w''] \<and> filename e2 = path \<and> writable w2 path"
    for raw2 e2 w2
    using that execute_w[of raw2 "[]" ev e2 w2] by (simp add: save_file_ok quit_with_def)
  show "\<exists>e' w'. execute_command ev raw (e, w) = Inr (False, e', w')
             \<and> filename e' = path
             \<and> files w' path = Some (join_lines (buffer e))
             \<and> (\<forall>raw2 e2 w2. split_ws (trim_copy raw2) = [''w''] \<and> filename e2 = filename e'
                    \<and> writable w2 path
                  \<longrightarrow> (\<exists>e3 w3. execute_command ev raw2 (e2, w2) = Inr (False, e3, w3)
                         \<and> filename e3 = path
                         \<and> files w3 path = Some (join_lines (buffer e2))
                         \<and> (\<forall>p. p \<noteq> path \<longrightarrow> files w3 p = files w2 p)))"
    using first later by simp
next
  assume h: "split_ws (trim_copy raw) = ''w'' # path # rest \<and> \<not> writable w path"
  then show "\<exists>e'. execute_command ev raw (e, w) = Inr (False, e', w) \<and> filename e' = filename e"
    using execute_w[of raw "path # rest" ev e w] by (simp add: save_file_fail quit_with_def)
qed

lemma parts_w_b: "split_ws (trim_copy ''w b.txt'') = [''w'', ''b.txt'']"
  by (simp add: split_ws_def trim_copy_def isspace_def)

definition readonly_world :: world where
  "readonly_world = \<lparr> files = (\<lambda>p. None), writable = (\<lambda>p. False) \<rparr>"

theorem save_as_changes_filename_witness:
  "split_ws (trim_copy ''w b.txt'') = [''w'', ''b.txt''] \<and> writable empty_world ''b.txt''
   \<and> (\<exists>e' w'. execute_command plain_env ''w b.txt'' (new_editor ''a.txt'', empty_world)
               = Inr (False, e', w')
         \<and> filename e' = ''b.txt'' \<and> files w' ''b.txt'' = Some []
         \<and> split_ws (trim_copy ''w'') = [''w''] \<and> writable w' ''b.txt''
         \<and> (\<exists>e3 w3. execute_command plain_env ''w'' (e', w') = Inr (False, e3, w3)
               \<and> filename e3 = ''b.txt'' \<and> files w3 ''a.txt'' = None))
   \<and> \<not> writable readonly_world ''b.txt''
   \<and> (\<exists>e'. execute_command plain_env ''w b.txt'' (new_editor ''a.txt'', readonly_world)
               = Inr (False, e', readonly_world)
         \<and> filename e' = ''a.txt'')"
proof -
  have wr: "writable empty_world ''b.txt''" by (simp add: empty_world_def)
  have nwr: "\<not> writable readonly_world ''b.txt''" by (simp add: readonly_world_def)
  note t1 = save_as_changes_filename[of "''w b.txt''" "''b.txt''" "[]" empty_world plain_env
      "new_editor ''a.txt''", THEN conjunct1, rule_format, OF conjI[OF parts_w_b wr]]
  then obtain e' w' where
    first: "execute_command plain_env ''w b.txt'' (new_editor ''a.txt'', empty_world) = Inr (False, e', w')"
    and fn: "filename e' = ''b.txt''"
    and fl: "files w' ''b.txt'' = Some (join_lines (buffer (new_editor ''a.txt'')))"
    and later: "\<And>raw2 e2 w2. split_ws (trim_copy raw2) = [''w''] \<and> filename e2 = filename e'
                    \<and> writable w2 ''b.txt''
                  \<Longrightarrow> (\<exists>e3 w3. execute_command plain_env raw2 (e2, w2) = Inr (False, e3, w3)
                         \<and> filename e3 = ''b.txt''
                         \<and> files w3 ''b.txt'' = Some (join_lines (buffer e2))
                         \<and> (\<forall>p. p \<noteq> ''b.txt'' \<longrightarrow> files w3 p = files w2 p))"
    by blast
  have w'eq: "w' = empty_world\<lparr> files := (files empty_world)(''b.txt'' \<mapsto> join_lines (buffer (new_editor ''a.txt''))) \<rparr>"
    using first execute_w[of "''w b.txt''" "[''b.txt'']" plain_env "new_editor ''a.txt''" empty_world] parts_w_b wr
    by (simp add: save_file_ok quit_with_def)
  have wr': "writable w' ''b.txt''" by (simp add: w'eq empty_world_def)
  have fa: "files w' ''a.txt'' = None" by (simp add: w'eq empty_world_def)
  from later[of "''w''" e' w'] parts_w wr'
  obtain e3 w3 where "execute_command plain_env ''w'' (e', w') = Inr (False, e3, w3)"
    "filename e3 = ''b.txt''" "\<forall>p. p \<noteq> ''b.txt'' \<longrightarrow> files w3 p = files w' p"
    by auto
  then have second: "\<exists>e3 w3. execute_command plain_env ''w'' (e', w') = Inr (False, e3, w3)
               \<and> filename e3 = ''b.txt'' \<and> files w3 ''a.txt'' = None"
    using fa by auto
  note t2 = save_as_changes_filename[of "''w b.txt''" "''b.txt''" "[]" readonly_world plain_env
      "new_editor ''a.txt''", THEN conjunct2, rule_format, OF conjI[OF parts_w_b nwr]]
  then have third: "\<exists>e'. execute_command plain_env ''w b.txt'' (new_editor ''a.txt'', readonly_world)
               = Inr (False, e', readonly_world) \<and> filename e' = ''a.txt''"
    by (simp add: new_editor_def)
  have fl0: "files w' ''b.txt'' = Some []" using fl by (simp add: new_editor_def)
  show ?thesis
    using parts_w_b wr nwr third first fn fl0 parts_w wr' second by blast
qed

section \<open>Verification: opening a path that cannot be read\<close>

text \<open>
  Claim C3 (as amended).  When the dirty flag is clear and the path cannot be read, a
  command line \<open>o <path>\<close> does not quit and changes no file; it reports
  \<open>New file: <path>\<close> in the status, replaces the buffer by one empty line, makes the
  path the current filename, puts the cursor and the offsets at 0 and leaves the dirty
  flag clear.
\<close>

theorem open_unreadable_resets_buffer:
  "split_ws (trim_copy raw) = ''o'' # path # rest \<and> \<not> dirty e \<and> read_text_file w path = None
   \<longrightarrow> execute_command ev raw (e, w)
        = Inr (False, e\<lparr> buffer := [[]], status := ''New file: '' @ path, filename := path,
                          cur_y := 0, cur_x := 0, off_y := 0, off_x := 0, dirty := False \<rparr>, w)"
  by (auto simp: execute_o open_file_def quit_with_def)

lemma parts_o_missing: "split_ws (trim_copy ''o missing.txt'') = [''o'', ''missing.txt'']"
  by (simp add: split_ws_def trim_copy_def isspace_def)

theorem open_unreadable_resets_buffer_witness:
  "split_ws (trim_copy ''o missing.txt'') = [''o'', ''missing.txt'']
   \<and> \<not> dirty ((new_editor ''a.txt'')\<lparr> buffer := [''abc''] \<rparr>)
   \<and> read_text_file empty_world ''missing.txt'' = None
   \<and> execute_command plain_env ''o missing.txt''
        ((new_editor ''a.txt'')\<lparr> buffer := [''abc''] \<rparr>, empty_world)
      = Inr (False, (new_editor ''missing.txt'')\<lparr> status := ''New file: missing.txt'' \<rparr>,
             empty_world)"
proof -
  have d: "\<not> dirty ((new_editor ''a.txt'')\<lparr> buffer := [''abc''] \<rparr>)" by (simp add: new_editor_def)
  have r: "read_text_file empty_world ''missing.txt'' = None"
    by (simp add: read_text_file_def empty_world_def)
  show ?thesis
    using open_unreadable_resets_buffer[of "''o missing.txt''" "''missing.txt''" "[]"
        "(new_editor ''a.txt'')\<lparr> buffer := [''abc''] \<rparr>" empty_world plain_env]
      parts_o_missing d r
    by (simp add: new_editor_def)
qed

text \<open>
  The claim as stated fails: a buffer holding the line \<open>abc\<close> is not what it was after
  \<open>o missing.txt\<close>.
\<close>

theorem open_unreadable_counterexample:
  "\<not> dirty ((new_editor ''a.txt'')\<lparr> buffer := [''abc''] \<rparr>)
   \<and> read_text_file empty_world ''missing.txt'' = None
   \<and> (case execute_command plain_env ''o missing.txt''
             ((new_editor ''a.txt'')\<lparr> buffer := [''abc''] \<rparr>, empty_world) of
         Inl er \<Rightarrow> False
       | Inr (quit, e', w') \<Rightarrow> buffer e' = [[]] \<and> buffer e' \<noteq> [''abc''])"
proof -
  have d: "\<not> dirty ((new_editor ''a.txt'')\<lparr> buffer := [''abc''] \<rparr>)" by (simp add: new_editor_def)
  have r: "read_text_file empty_world ''missing.txt'' = None"
    by (simp add: read_text_file_def empty_world_def)
  have "execute_command plain_env ''o missing.txt''
             ((new_editor ''a.txt'')\<lparr> buffer := [''abc''] \<rparr>, empty_world)
        = quit_with False (open_file ''missing.txt''
             ((new_editor ''a.txt'')\<lparr> buffer := [''abc''] \<rparr>, empty_world))"
    using parts_o_missing d by (rule execute_o)
  then show ?thesis using d r by (simp add: open_file_def quit_with_def)
qed

section \<open>Verification: saving and opening again\<close>

lemma getline_Nil: "getline [] = None"
  by (simp add: getline_def)

lemma getline_line:
  assumes "newline_char \<notin> set l"
  shows "getline (l @ newline_char # rest) = Some (l, rest)"
proof -
  have tw: "takeWhile (\<lambda>c. c \<noteq> newline_char) (l @ newline_char # rest) = l"
    using assms by (induction l) auto
  have dw: "dropWhile (\<lambda>c. c \<noteq> newline_char) (l @ newline_char # rest) = newline_char # rest"
    using assms by (induction l) auto
  show ?thesis by (simp add: getline_def tw dw)
qed

lemma getline_last:
  assumes "newline_char \<notin> set l" "l \<noteq> []"
  shows "getline l = Some (l, [])"
proof -
  have tw: "takeWhile (\<lambda>c. c \<noteq> newline_char) l = l" using assms(1) by (induction l) auto
  have dw: "dropWhile (\<lambda>c. c \<noteq> newline_char) l = []" using assms(1) by (induction l) auto
  show ?thesis using assms(2) by (simp add: getline_def tw dw)
qed

lemma getline_shorter: "getline s = Some (l, rest) \<Longrightarrow> length rest < length s"
proof -
  assume a: "getline s = Some (l, rest)"
  then have "s \<noteq> []" and r: "rest = drop 1 (dropWhile (\<lambda>c. c \<noteq> newline_char) s)"
    by (auto simp: getline_def split: if_splits)
  moreover have "length (dropWhile (\<lambda>c. c \<noteq> newline_char) s) \<le> length s"
    by (rule length_dropWhile_le)
  ultimately show ?thesis by (cases s) auto
qed

lemma read_lines_acc: "read_lines s buf = buf @ read_lines s []"
proof (induction s arbitrary: buf rule: length_induct)
  case (1 s)
  show ?case
  proof (cases "getline s")
    case None
    then show ?thesis by (simp add: read_lines.simps)
  next
    case (Some p)
    obtain l rest where p: "p = (l, rest)" by (cases p)
    have sh: "length rest < length s" using Some p getline_shorter by simp
    have "read_lines s buf = read_lines rest (buf @ [strip_cr l])"
      using Some p by (subst read_lines.simps) simp
    also have "\<dots> = (buf @ [strip_cr l]) @ read_lines rest []" using 1 sh by blast
    also have "\<dots> = buf @ read_lines rest [strip_cr l]" using 1[rule_format, OF sh, of "[strip_cr l]"] by simp
    also have "read_lines rest [strip_cr l] = read_lines s []"
      using Some p by (subst (2) read_lines.simps) simp
    finally show ?thesis .
  qed
qed

lemma read_lines_Nil: "read_lines [] buf = buf"
  by (simp add: read_lines.simps getline_Nil)

lemma read_lines_line:
  assumes "newline_char \<notin> set l"
  shows "read_lines (l @ newline_char # rest) [] = strip_cr l # read_lines rest []"
proof -
  have "read_lines (l @ newline_char # rest) [] = read_lines rest [strip_cr l]"
    using getline_line[OF assms] by (subst read_lines.simps) simp
  then show ?thesis using read_lines_acc[of rest "[strip_cr l]"] by simp
qed

lemma read_lines_last:
  assumes "newline_char \<notin> set l" "l \<noteq> []"
  shows "read_lines l [] = [strip_cr l]"
  using getline_last[OF assms] by (subst read_lines.simps) (simp add: read_lines_Nil)

lemma read_lines_join:
  assumes "ls \<noteq> []" "\<forall>l \<in> set ls. newline_char \<notin> set l"
  shows "read_lines (join_lines ls) [] = map strip_cr (if last ls = [] then butlast ls else ls)"
  using assms
proof (induction ls rule: join_lines.induct)
  case 1
  then show ?case by simp
next
  case (2 l)
  then show ?case by (cases "l = []") (simp_all add: read_lines_Nil read_lines_last)
next
  case (3 l v va)
  then have "read_lines (join_lines (l # v # va)) [] = strip_cr l # read_lines (join_lines (v # va)) []"
    by (simp add: read_lines_line)
  then show ?case using 3 by simp
qed

lemma join_lines_last:
  assumes "ls \<noteq> []" "\<forall>l \<in> set ls. newline_char \<notin> set l"
  shows "(join_lines ls \<noteq> [] \<and> last (join_lines ls) = newline_char) = (2 \<le> length ls \<and> last ls = [])"
  using assms
proof (induction ls rule: join_lines.induct)
  case 1
  then show ?case by simp
next
  case (2 l)
  then show ?case by (cases l rule: rev_cases) auto
next
  case (3 l v va)
  show ?case
  proof (cases "join_lines (v # va) = []")
    case True
    then have "v = [] \<and> va = []" by (cases va) auto
    then show ?thesis by simp
  next
    case False
    then have "last (join_lines (l # v # va)) = last (join_lines (v # va))" by simp
    moreover have "va \<noteq> [] \<or> v \<noteq> []" using False by (cases va) auto
    ultimately show ?thesis using 3 False by (cases va) auto
  qed
qed

lemma strip_cr_id: "l = [] \<or> last l \<noteq> cr_char \<Longrightarrow> strip_cr l = l"
  by (auto simp: strip_cr_def)

lemma open_after_save:
  assumes "writable w path"
  shows "buffer (fst (open_file path (save_file path (e, w))))
     = (let text = join_lines (buffer e); buf = read_lines text []
        in if text \<noteq> [] \<and> last text = newline_char \<and> (buf = [] \<or> last buf \<noteq> [])
           then buf @ [[]] else buf)"
  by (simp add: save_file_ok[OF assms] open_file_def read_text_file_def Let_def)

text \<open>
  Claim C2 (as amended).  Let the buffer be a non-empty sequence of lines without
  newline in which no line ends in a carriage return and in which an empty last line
  comes after a non-empty line.  When the write succeeds, saving to a path and opening
  that path gives back the same sequence of lines.
\<close>

theorem save_then_open_roundtrip:
  "buffer e \<noteq> []
   \<and> (\<forall>l \<in> set (buffer e). newline_char \<notin> set l \<and> (l = [] \<or> last l \<noteq> cr_char))
   \<and> (last (buffer e) = [] \<longrightarrow> 2 \<le> length (buffer e) \<and> buffer e ! (length (buffer e) - 2) \<noteq> [])
   \<and> writable w path
   \<longrightarrow> buffer (fst (open_file path (save_file path (e, w)))) = buffer e"
proof (intro impI, elim conjE)
  let ?ls = "buffer e"
  assume ne: "?ls \<noteq> []"
    and al: "\<forall>l \<in> set ?ls. newline_char \<notin> set l \<and> (l = [] \<or> last l \<noteq> cr_char)"
    and la: "last ?ls = [] \<longrightarrow> 2 \<le> length ?ls \<and> ?ls ! (length ?ls - 2) \<noteq> []"
    and wr: "writable w path"
  have nl: "\<forall>l \<in> set ?ls. newline_char \<notin> set l" using al by blast
  have st: "map strip_cr xs = xs" if "set xs \<subseteq> set ?ls" for xs
    using that al by (intro map_idI strip_cr_id) blast
  have rl: "read_lines (join_lines ?ls) [] = (if last ?ls = [] then butlast ?ls else ?ls)"
    using read_lines_join[OF ne nl] st[of ?ls] st[of "butlast ?ls"]
    by (auto dest: in_set_butlastD)
  show "buffer (fst (open_file path (save_file path (e, w)))) = ?ls"
  proof (cases "last ?ls = []")
    case True
    with la have l2: "2 \<le> length ?ls" and pen: "?ls ! (length ?ls - 2) \<noteq> []" by auto
    have bn: "butlast ?ls \<noteq> []" using l2 by (cases ?ls rule: rev_cases) auto
    have "last (butlast ?ls) = ?ls ! (length ?ls - 2)"
      using l2 bn by (simp add: last_conv_nth nth_butlast numeral_2_eq_2 Suc_diff_Suc)
    then have lb: "last (butlast ?ls) \<noteq> []" using pen by simp
    have "butlast ?ls @ [[]] = ?ls" using True ne by (metis append_butlast_last_id)
    then show ?thesis using True rl bn lb l2 join_lines_last[OF ne nl]
      by (simp add: open_after_save[OF wr] Let_def)
  next
    case False
    then show ?thesis using rl join_lines_last[OF ne nl]
      by (simp add: open_after_save[OF wr] Let_def)
  qed
qed


theorem save_then_open_roundtrip_witness:
  "buffer ((new_editor ''a.txt'')\<lparr> buffer := [''ab'', ''c'', []] \<rparr>) \<noteq> []
   \<and> newline_char \<notin> set ''ab'' \<and> newline_char \<notin> set ''c'' \<and> last ''ab'' \<noteq> cr_char
   \<and> last ''c'' \<noteq> cr_char \<and> [''ab'', ''c'', []] ! 1 \<noteq> []
   \<and> writable empty_world ''a.txt''
   \<and> buffer (fst (open_file ''a.txt'' (save_file ''a.txt''
        ((new_editor ''a.txt'')\<lparr> buffer := [''ab'', ''c'', []] \<rparr>, empty_world))))
      = [''ab'', ''c'', []]"
proof -
  have wr: "writable empty_world ''a.txt''" by (simp add: empty_world_def)
  have h: "newline_char \<notin> set ''ab'' \<and> newline_char \<notin> set ''c'' \<and> last ''ab'' \<noteq> cr_char
   \<and> last ''c'' \<noteq> cr_char"
    by (simp add: newline_char_def cr_char_def)
  show ?thesis
    using save_then_open_roundtrip[of "(new_editor ''a.txt'')\<lparr> buffer := [''ab'', ''c'', []] \<rparr>"
        empty_world "''a.txt''"] wr h
    by simp
qed

text \<open>
  The claim as stated fails: the one-line Document whose line is \<open>a\<close> followed by a
  carriage return comes back as the line \<open>a\<close>, since \<open>open_file\<close> removes a carriage
  return at the end of every line it reads.
\<close>

theorem save_then_open_counterexample:
  "newline_char \<notin> set [CHR ''a'', cr_char]
   \<and> writable empty_world ''a.txt''
   \<and> buffer (fst (open_file ''a.txt'' (save_file ''a.txt''
        ((new_editor ''a.txt'')\<lparr> buffer := [[CHR ''a'', cr_char]] \<rparr>, empty_world))))
      = [''a'']
   \<and> [''a''] \<noteq> [[CHR ''a'', cr_char]]"
proof -
  have wr: "writable empty_world ''a.txt''" by (simp add: empty_world_def)
  have nl: "newline_char \<notin> set [CHR ''a'', cr_char]" by (simp add: newline_char_def cr_char_def)
  have "read_lines [CHR ''a'', cr_char] [] = [strip_cr [CHR ''a'', cr_char]]"
    using nl by (intro read_lines_last) simp_all
  then have "read_lines [CHR ''a'', cr_char] [] = [''a'']" by (simp add: strip_cr_def)
  then show ?thesis using wr nl
    by (simp add: open_after_save[OF wr] Let_def newline_char_def cr_char_def)
qed

text \<open>
  The two other shapes outside the amended claim: of two empty lines at the end one is
  not read back, and the Document that is one empty line is read back as no line at all.
\<close>

lemma two_empty_lines_lose_one:
  "buffer (fst (open_file ''a.txt'' (save_file ''a.txt''
        ((new_editor ''a.txt'')\<lparr> buffer := [[], []] \<rparr>, empty_world)))) = [[]]"
proof -
  have wr: "writable empty_world ''a.txt''" by (simp add: empty_world_def)
  have "read_lines [newline_char] [] = [[]]"
    using read_lines_line[of "[]" "[]"] by (simp add: read_lines_Nil strip_cr_def)
  then show ?thesis by (simp add: open_after_save[OF wr] Let_def)
qed

lemma empty_document_loses_its_line:
  "buffer (fst (open_file ''a.txt'' (save_file ''a.txt'' (new_editor ''a.txt'', empty_world)))) = []"
proof -
  have wr: "writable empty_world ''a.txt''" by (simp add: empty_world_def)
  show ?thesis by (simp add: open_after_save[OF wr] Let_def new_editor_def read_lines_Nil)
qed

section \<open>Verification: n-gram counts\<close>

text \<open>
  The number of windows of the token list that hold a given tuple: the positions \<open>i\<close>
  at which the tuple starts and fits.
\<close>

definition occurrences :: "string list \<Rightarrow> string list \<Rightarrow> nat" where
  "occurrences toks ng =
     length (filter (\<lambda>i. take (length ng) (drop i toks) = ng) [0 ..< length toks + 1 - length ng])"

text \<open>The count an association list gives a key, 0 for a key it does not have.\<close>

definition count_of :: "('k \<times> nat) list \<Rightarrow> 'k \<Rightarrow> nat" where
  "count_of m k = (case map_of m k of None \<Rightarrow> 0 | Some c \<Rightarrow> c)"

lemma map_bump_keys: "fst ` set (map_bump k m) = insert k (fst ` set m)"
proof (induction m)
  case Nil
  then show ?case by simp
next
  case (Cons a m)
  obtain k' n where a: "a = (k', n)" by (cases a)
  show ?case using Cons.IH by (auto simp: a)
qed

lemma map_bump_sorted:
  assumes "sorted_wrt (<) (map fst m)"
  shows "sorted_wrt (<) (map fst (map_bump k m))"
  using assms
proof (induction m)
  case Nil
  then show ?case by simp
next
  case (Cons a m)
  obtain k' n where a: "a = (k', n)" by (cases a)
  from Cons.prems have lt: "\<forall>x \<in> fst ` set m. k' < x" and sm: "sorted_wrt (<) (map fst m)"
    by (auto simp: a)
  show ?case
  proof (cases "k = k'")
    case True
    then show ?thesis using Cons.prems by (simp add: a)
  next
    case False
    note ne = this
    show ?thesis
    proof (cases "k < k'")
      case True
      then show ?thesis using ne Cons.prems lt by (auto simp: a)
    next
      case False
      then have "k' < k" using ne by simp
      then have "\<forall>x \<in> fst ` set (map_bump k m). k' < x" using lt by (simp add: map_bump_keys)
      then show ?thesis using ne False Cons.IH[OF sm] by (simp add: a image_iff)
    qed
  qed
qed

lemma count_of_fresh: "k \<notin> fst ` set m \<Longrightarrow> count_of m k = 0"
  using map_of_eq_None_iff[of m k] by (simp add: count_of_def)

lemma map_bump_count:
  assumes "sorted_wrt (<) (map fst m)"
  shows "count_of (map_bump k m) k' = count_of m k' + (if k = k' then 1 else 0)"
  using assms
proof (induction m)
  case Nil
  then show ?case by (simp add: count_of_def)
next
  case (Cons a m)
  obtain k0 n where a: "a = (k0, n)" by (cases a)
  from Cons.prems have lt: "\<forall>x \<in> fst ` set m. k0 < x" and sm: "sorted_wrt (<) (map fst m)"
    by (auto simp: a)
  show ?case
  proof (cases "k = k0")
    case True
    then show ?thesis by (simp add: a count_of_def)
  next
    case False
    note ne = this
    show ?thesis
    proof (cases "k < k0")
      case True
      then have "k \<notin> fst ` set m" using lt by auto
      then have "count_of m k = 0" by (rule count_of_fresh)
      then show ?thesis using ne True by (auto simp: a count_of_def)
    next
      case False
      have ih: "count_of (map_bump k m) k' = count_of m k' + (if k = k' then 1 else 0)"
        by (rule Cons.IH[OF sm])
      show ?thesis using ne False ih by (auto simp: a count_of_def)
    qed
  qed
qed

lemma map_bump_positive:
  "\<forall>p \<in> set m. 0 < snd p \<Longrightarrow> \<forall>p \<in> set (map_bump k m). 0 < snd p"
proof (induction m)
  case Nil
  then show ?case by simp
next
  case (Cons a m)
  obtain k' n where a: "a = (k', n)" by (cases a)
  from Cons.prems have "0 < n" and "\<forall>p \<in> set m. 0 < snd p" by (auto simp: a)
  then show ?case using Cons.IH by (auto simp: a split: if_splits)
qed

lemma fold_map_bump:
  assumes "sorted_wrt (<) (map fst m)" "\<forall>p \<in> set m. 0 < snd p"
  shows "sorted_wrt (<) (map fst (fold map_bump ks m))
    \<and> (\<forall>p \<in> set (fold map_bump ks m). 0 < snd p)
    \<and> fst ` set (fold map_bump ks m) = set ks \<union> fst ` set m
    \<and> (\<forall>k'. count_of (fold map_bump ks m) k' = count_of m k' + count_list ks k')"
  using assms
proof (induction ks arbitrary: m)
  case Nil
  then show ?case by simp
next
  case (Cons k ks)
  have s: "sorted_wrt (<) (map fst (map_bump k m))" using Cons.prems(1) by (rule map_bump_sorted)
  have p: "\<forall>p \<in> set (map_bump k m). 0 < snd p" using Cons.prems(2) by (rule map_bump_positive)
  show ?case using Cons.IH[OF s p] map_bump_count[OF Cons.prems(1), of k]
    by (auto simp: map_bump_keys)
qed

lemma ngram_loop_fold:
  "ngram_loop toks n i counts
     = fold map_bump (map (\<lambda>j. ngram_key toks j n) [i ..< length toks + 1 - n]) counts"
proof (induction toks n i counts rule: ngram_loop.induct)
  case (1 toks n i counts)
  show ?case
  proof (cases "i + n \<le> length toks")
    case True
    then have "[i ..< length toks + 1 - n] = i # [i + 1 ..< length toks + 1 - n]"
      by (simp add: upt_conv_Cons)
    then show ?thesis using True 1 by (subst ngram_loop.simps) simp
  next
    case False
    then show ?thesis by (subst ngram_loop.simps) simp
  qed
qed

lemma ngram_key_take: "i + n \<le> length toks \<Longrightarrow> ngram_key toks i n = take n (drop i toks)"
  by (auto simp: ngram_key_def intro!: nth_equalityI)

lemma count_list_map: "count_list (map f xs) y = length (filter (\<lambda>x. f x = y) xs)"
  by (induction xs) auto

lemma ngram_counts_entry:
  assumes "(ng, c) \<in> set (ngram_loop toks n 0 [])"
  shows "length ng = n \<and> 0 < c \<and> c = occurrences toks ng"
proof -
  let ?ks = "map (\<lambda>j. ngram_key toks j n) [0 ..< length toks + 1 - n]"
  let ?m = "fold map_bump ?ks []"
  have m: "ngram_loop toks n 0 [] = ?m" by (rule ngram_loop_fold)
  have f: "sorted_wrt (<) (map fst ?m)" "\<forall>p \<in> set ?m. 0 < snd p"
    "fst ` set ?m = set ?ks" "\<forall>k'. count_of ?m k' = count_list ?ks k'"
    using fold_map_bump[of "[]" ?ks] by (simp_all add: count_of_def)
  have mem: "(ng, c) \<in> set ?m" using assms m by simp
  then have "ng \<in> set ?ks" using f(3) by (metis fst_conv image_eqI)
  then have len: "length ng = n" by (auto simp: ngram_key_def)
  have pos: "0 < c" using f(2) mem by auto
  have "distinct (map fst ?m)" using f(1) by (simp add: strict_sorted_iff)
  then have "map_of ?m ng = Some c" using mem by simp
  then have "c = count_list ?ks ng" using f(4)[THEN spec, of ng] by (simp add: count_of_def)
  also have "\<dots> = length (filter (\<lambda>j. ngram_key toks j n = ng) [0 ..< length toks + 1 - n])"
    by (rule count_list_map)
  also have "\<dots> = length (filter (\<lambda>j. take n (drop j toks) = ng) [0 ..< length toks + 1 - n])"
    by (rule arg_cong[where f = length], rule filter_cong) (auto simp: ngram_key_take)
  finally show ?thesis using len pos by (simp add: occurrences_def)
qed

lemma ngram_counts_nonempty:
  assumes "0 < n" "n \<le> length toks"
  shows "ngram_loop toks n 0 [] \<noteq> []"
proof -
  let ?ks = "map (\<lambda>j. ngram_key toks j n) [0 ..< length toks + 1 - n]"
  have "fst ` set (fold map_bump ?ks []) = set ?ks"
    using fold_map_bump[of "[]" ?ks] by simp
  moreover have "?ks \<noteq> []" using assms by simp
  ultimately show ?thesis by (auto simp: ngram_loop_fold)
qed

text \<open>
  Claim C7 (as amended).  With any sorting routine that rearranges its argument into
  non-increasing order of count, \<open>top_ngrams\<close> returns the empty list exactly when
  \<open>N\<close> is 0, or there are fewer than \<open>N\<close> tokens, or \<open>K\<close> is 0.  It never returns more
  than \<open>K\<close> entries; every entry is a tuple of \<open>N\<close> tokens with its count, the count
  is the number of windows of the token list that hold the tuple, and no entry stands
  before one of greater count.
\<close>

theorem top_ngrams_counts:
  assumes "sorts_by_count srt"
  shows "(top_ngrams srt toks n k = [] \<longleftrightarrow> n = 0 \<or> length toks < n \<or> k = 0)
    \<and> length (top_ngrams srt toks n k) \<le> k
    \<and> (\<forall>p \<in> set (top_ngrams srt toks n k).
          length (fst p) = n \<and> 0 < snd p \<and> snd p = occurrences toks (fst p))
    \<and> sorted_wrt (\<lambda>a b. snd a \<ge> snd b) (top_ngrams srt toks n k)"
proof (cases "n = 0 \<or> length toks < n")
  case True
  then show ?thesis by (auto simp: top_ngrams_def)
next
  case False
  let ?m = "ngram_loop toks n 0 []"
  from assms have ms: "mset (srt ?m) = mset ?m" and so: "sorted_wrt (\<lambda>a b. snd a \<ge> snd b) (srt ?m)"
    by (auto simp: sorts_by_count_def)
  have res: "top_ngrams srt toks n k = take k (srt ?m)"
    using False by (simp add: top_ngrams_def Let_def)
  have "?m \<noteq> []" using False by (intro ngram_counts_nonempty) auto
  then have "srt ?m \<noteq> []" using ms by (metis mset_zero_iff)
  then have e: "(take k (srt ?m) = []) = (k = 0)" by (cases "srt ?m") (auto simp: take_Cons')
  have "set (srt ?m) = set ?m" using ms by (rule mset_eq_setD)
  then have sub: "set (take k (srt ?m)) \<subseteq> set ?m" using set_take_subset by fastforce
  have ent: "\<forall>p \<in> set (take k (srt ?m)).
          length (fst p) = n \<and> 0 < snd p \<and> snd p = occurrences toks (fst p)"
  proof
    fix p assume "p \<in> set (take k (srt ?m))"
    then have "(fst p, snd p) \<in> set ?m" using sub by auto
    then show "length (fst p) = n \<and> 0 < snd p \<and> snd p = occurrences toks (fst p)"
      by (rule ngram_counts_entry)
  qed
  have srt: "sorted_wrt (\<lambda>a b. snd a \<ge> snd b) (take k (srt ?m))"
    using so by (rule sorted_wrt_take)
  have le: "length (take k (srt ?m)) \<le> k" by simp
  show ?thesis unfolding res using False e ent srt le by blast
qed


lemma ngram_key_2: "ngram_key toks i 2 = [toks ! i, toks ! Suc i]"
  by (simp add: ngram_key_def numeral_2_eq_2)

lemma ababa_counts:
  "ngram_loop [''a'', ''b'', ''a'', ''b'', ''a''] 2 0 [] = [([''a'', ''b''], 2), ([''b'', ''a''], 2)]"
proof -
  have lt: "[''a'', ''b''] < [''b'', ''a'']" "\<not> [''b'', ''a''] < [''a'', ''b'']"
    by (simp_all add: less_char_def)
  have "[0 ..< length [''a'', ''b'', ''a'', ''b'', ''a''] + 1 - 2] = [0, Suc 0, Suc (Suc 0), Suc (Suc (Suc 0))]"
    by (simp add: upt_rec)
  then show ?thesis
    by (simp add: ngram_loop_fold ngram_key_2 lt)
qed

theorem top_ngrams_counts_witness:
  "sorts_by_count count_sort
   \<and> top_ngrams count_sort [''a'', ''b'', ''a'', ''b'', ''a''] 2 1 = [([''a'', ''b''], 2)]
   \<and> occurrences [''a'', ''b'', ''a'', ''b'', ''a''] [''a'', ''b''] = 2"
proof -
  let ?toks = "[''a'', ''b'', ''a'', ''b'', ''a'']"
  have r: "top_ngrams count_sort ?toks 2 1 = [([''a'', ''b''], 2)]"
    by (simp add: top_ngrams_def ababa_counts count_sort_def Let_def)
  have "\<forall>p \<in> set (top_ngrams count_sort ?toks 2 1). snd p = occurrences ?toks (fst p)"
    using top_ngrams_counts[OF count_sort_ok, of ?toks 2 1] by blast
  then have "\<forall>p \<in> set [([''a'', ''b''], 2 :: nat)]. snd p = occurrences ?toks (fst p)"
    unfolding r .
  then have "occurrences ?toks [''a'', ''b''] = 2" by simp
  then show ?thesis using count_sort_ok r by simp
qed

text \<open>
  The claim as stated fails: one token, \<open>N = 1\<close> and \<open>K = 0\<close> give the empty list,
  although \<open>N\<close> is not 0 and there are \<open>N\<close> tokens.
\<close>

theorem top_ngrams_empty_counterexample:
  "top_ngrams count_sort [''a''] 1 0 = [] \<and> (1::nat) \<noteq> 0 \<and> \<not> length [''a''] < (1::nat)"
proof -
  have "ngram_loop [''a''] 1 0 [] = [([''a''], 1)]"
    by (simp add: ngram_loop_fold ngram_key_def)
  then show ?thesis by (simp add: top_ngrams_def count_sort_def Let_def)
qed

end
